theory Spec2Isabelle
  imports Complex_Main "HOL-Library.Multiset"
begin

section \<open>ActuallyRedactPDF: the redaction engine (lib/pdf-redaction)\<close>

text \<open>
  The engine works on documents through two libraries: pdf.js decodes a document into
  pages (a viewport, a list of text-content items, a renderer) and pdf-lib builds and
  saves documents. The model starts at that seam: a document is its decoded form, a
  list of pages and an information dictionary, and saving a document followed by
  loading it again gives the same decoded document.

  JavaScript numbers are modelled as reals (there is no NaN and no infinity), strings
  as lists of 8-bit code units, and page indices as natural numbers.
\<close>

subsection \<open>Data model\<close>

type_synonym transform = "real \<times> real \<times> real \<times> real \<times> real \<times> real"

text \<open>\<open>transform[4]\<close> and \<open>transform[5]\<close>: the translation part of the matrix
  \<open>[scaleX, skewX, skewY, scaleY, translateX, translateY]\<close>.\<close>

fun transform4 :: "transform \<Rightarrow> real" where
  "transform4 (a, b, c, d, e, f) = e"

fun transform5 :: "transform \<Rightarrow> real" where
  "transform5 (a, b, c, d, e, f) = f"

text \<open>The cast \<open>item as { str; transform; width; height }\<close>.\<close>

record textItem =
  str :: string
  transform :: transform
  item_width :: real
  item_height :: real

text \<open>An entry of \<open>textContent.items\<close>: a text item, or marked content, which has
  no \<open>str\<close> property and is skipped by every loop (\<open>if (!('str' in item)) continue\<close>).\<close>

datatype item = TextItem textItem | MarkedContent

text \<open>A decoded page: its text content, the size of its viewport at scale 1, and
  whatever else it draws.\<close>

record 'c page =
  items :: "item list"
  viewWidth :: real
  viewHeight :: real
  content :: 'c

record metadata =
  title :: "string option"
  author :: "string option"
  subject :: "string option"
  keywordList :: "string list option"
  producer :: "string option"
  creator :: "string option"
  creationDate :: "nat option"
  modificationDate :: "nat option"

record 'c pdf =
  pages :: "'c page list"
  info :: metadata

definition numPages :: "'c pdf \<Rightarrow> nat" where
  "numPages doc = length (pages doc)"

text \<open>\<open>getPage(pageNum)\<close>, numbered from 1. The engine calls it only with
  \<open>1 \<le> pageNum \<le> numPages\<close>: from the page loops, and behind the guard of
  \<open>verifyRedaction\<close>.\<close>

definition getPage :: "'c pdf \<Rightarrow> nat \<Rightarrow> 'c page" where
  "getPage doc pageNum = pages doc ! (pageNum - 1)"

text \<open>\<open>page.getViewport({ scale })\<close>: width and height.\<close>

definition getViewport :: "'c page \<Rightarrow> real \<Rightarrow> real \<times> real" where
  "getViewport page scale = (viewWidth page * scale, viewHeight page * scale)"

record RedactionArea =
  pageIndex :: nat
  x :: real
  y :: real
  width :: real
  height :: real

record TextMatch = RedactionArea +
  match_text :: string

datatype patternType = ssn | email | phone | credit_card

record PatternMatch = TextMatch +
  pattern :: string
  patternType :: patternType

text \<open>\<open>v || d\<close> on numbers: zero is falsy.\<close>

definition orElse :: "real \<Rightarrow> real \<Rightarrow> real" where
  "orElse v d = (if v = 0 then d else v)"

subsection \<open>The canvas and the flattened page\<close>

text \<open>A canvas with its 2D context: the numbers assigned to its width and height, what
  \<open>page.render\<close> drew on it, the current fill style, and the rectangles filled since, in
  paint order.\<close>

record 'px canvas =
  canvas_width :: real
  canvas_height :: real
  rendered :: "'px option"
  fillStyle :: string
  filled :: "(string \<times> real \<times> real \<times> real \<times> real) list"

definition createCanvas :: "real \<Rightarrow> real \<Rightarrow> 'px canvas" where
  "createCanvas w h =
     \<lparr>canvas_width = w, canvas_height = h,
      rendered = None, fillStyle = ''#000000'', filled = []\<rparr>"

definition fillRect :: "'px canvas \<Rightarrow> real \<Rightarrow> real \<Rightarrow> real \<Rightarrow> real \<Rightarrow> 'px canvas" where
  "fillRect ctx rx ry rw rh = ctx\<lparr>filled := filled ctx @ [(fillStyle ctx, rx, ry, rw, rh)]\<rparr>"

text \<open>What \<open>newPage.drawImage(pngImage, { x, y, width, height })\<close> leaves on a page
  that \<open>addPage\<close> created empty: the PNG of the canvas, and where it is drawn.\<close>

record 'px flattened =
  image :: "'px canvas"
  image_x :: real
  image_y :: real
  image_width :: real
  image_height :: real

subsection \<open>redactPdfByAreas\<close>

text \<open>Grouping the areas by page: the loop over \<open>redactionAreas\<close> that fills the
  \<open>Map\<close> \<open>redactionsByPage\<close>.\<close>

definition getOrEmpty :: "(nat \<rightharpoonup> RedactionArea list) \<Rightarrow> nat \<Rightarrow> RedactionArea list" where
  "getOrEmpty m k = (case m k of None \<Rightarrow> [] | Some l \<Rightarrow> l)"

definition groupStep :: "RedactionArea \<Rightarrow> (nat \<rightharpoonup> RedactionArea list) \<Rightarrow> (nat \<rightharpoonup> RedactionArea list)" where
  "groupStep area m = (let existing = getOrEmpty m (pageIndex area)
                       in m(pageIndex area \<mapsto> existing @ [area]))"

definition redactionsByPage :: "RedactionArea list \<Rightarrow> (nat \<rightharpoonup> RedactionArea list)" where
  "redactionsByPage redactionAreas = fold groupStep redactionAreas Map.empty"

text \<open>The inner loop: one black rectangle per area of the page, scaled to the canvas.\<close>

definition drawArea :: "real \<Rightarrow> RedactionArea \<Rightarrow> 'px canvas \<Rightarrow> 'px canvas" where
  "drawArea renderScale area ctx =
     (let scaledX = x area * renderScale;
          scaledY = y area * renderScale;
          scaledWidth = width area * renderScale;
          scaledHeight = height area * renderScale
      in fillRect ctx scaledX scaledY scaledWidth scaledHeight)"

text \<open>The body of the page loop. \<open>render\<close> is pdf.js's \<open>page.render\<close>: it gives the
  pixels drawn for a page at a scale, or fails (the promise is rejected), and the
  rejection leaves \<open>redactPdfByAreas\<close> at once, as there is no handler.\<close>

definition flattenPage ::
  "('c page \<Rightarrow> real \<Rightarrow> 'e + 'px) \<Rightarrow> (nat \<rightharpoonup> RedactionArea list) \<Rightarrow> real \<Rightarrow>
   'c pdf \<Rightarrow> nat \<Rightarrow> 'e + 'px flattened page" where
  "flattenPage render byPage renderScale pdfJsDoc pageNum =
     (let pageIndex = pageNum - 1;
          page = getPage pdfJsDoc pageNum;
          viewport = getViewport page renderScale;
          canvas = createCanvas (fst viewport) (snd viewport)
      in case render page renderScale of
           Inl err \<Rightarrow> Inl err
         | Inr px \<Rightarrow>
            (let canvas = canvas\<lparr>rendered := Some px\<rparr>;
                 pageRedactions = getOrEmpty byPage pageIndex;
                 ctx = canvas\<lparr>fillStyle := ''#000000''\<rparr>;
                 ctx = fold (drawArea renderScale) pageRedactions ctx;
                 pngImage = ctx;
                 originalViewport = getViewport page 1;
                 newPage = \<lparr>items = [], viewWidth = fst originalViewport,
                            viewHeight = snd originalViewport,
                            content = \<lparr>image = pngImage, image_x = 0, image_y = 0,
                                        image_width = fst originalViewport,
                                        image_height = snd originalViewport\<rparr>\<rparr>
             in Inr newPage))"

text \<open>\<open>for (let pageNum = 1; pageNum <= pdfJsDoc.numPages; pageNum++)\<close>, adding each
  flattened page to the new document.\<close>

function pageLoop ::
  "('c page \<Rightarrow> real \<Rightarrow> 'e + 'px) \<Rightarrow> (nat \<rightharpoonup> RedactionArea list) \<Rightarrow> real \<Rightarrow>
   'c pdf \<Rightarrow> nat \<Rightarrow> 'px flattened page list \<Rightarrow> 'e + 'px flattened page list" where
  "pageLoop render byPage renderScale pdfJsDoc pageNum newPages =
     (if pageNum \<le> numPages pdfJsDoc then
        (case flattenPage render byPage renderScale pdfJsDoc pageNum of
           Inl err \<Rightarrow> Inl err
         | Inr newPage \<Rightarrow>
             pageLoop render byPage renderScale pdfJsDoc (pageNum + 1) (newPages @ [newPage]))
      else Inr newPages)"
  by pat_completeness auto
termination
  by (relation "measure (\<lambda>(render, byPage, renderScale, pdfJsDoc, pageNum, newPages).
                  numPages pdfJsDoc + 1 - pageNum)") auto

declare pageLoop.simps [simp del]

text \<open>\<open>created\<close> is the information dictionary of the document that
  \<open>PDFDocument.create()\<close> returns.\<close>

definition redactPdfByAreas ::
  "('c page \<Rightarrow> real \<Rightarrow> 'e + 'px) \<Rightarrow> metadata \<Rightarrow> 'c pdf \<Rightarrow> RedactionArea list \<Rightarrow> real \<Rightarrow>
   'e + 'px flattened pdf" where
  "redactPdfByAreas render created pdfJsDoc redactionAreas renderScale =
     (let byPage = redactionsByPage redactionAreas
      in case pageLoop render byPage renderScale pdfJsDoc 1 [] of
           Inl err \<Rightarrow> Inl err
         | Inr newPages \<Rightarrow>
             Inr \<lparr>pages = newPages,
                  info = created\<lparr>title := Some '''', author := Some '''', subject := Some '''',
                                 keywordList := Some [],
                                 producer := Some ''ActuallyRedactPDF - True Redaction'',
                                 creator := Some ''ActuallyRedactPDF''\<rparr>\<rparr>)"

subsection \<open>sanitizePdf\<close>

text \<open>\<open>now1\<close> and \<open>now2\<close> are the two readings of the clock, \<open>new Date()\<close>.\<close>

definition sanitizePdf :: "nat \<Rightarrow> nat \<Rightarrow> 'c pdf \<Rightarrow> 'c pdf" where
  "sanitizePdf now1 now2 pdfDoc =
     pdfDoc\<lparr>info := (info pdfDoc)\<lparr>title := Some '''', author := Some '''', subject := Some '''',
                                  keywordList := Some [],
                                  producer := Some ''ActuallyRedactPDF - Sanitized'',
                                  creator := Some ''ActuallyRedactPDF'',
                                  creationDate := Some now1,
                                  modificationDate := Some now2\<rparr>\<rparr>"

subsection \<open>verifyRedaction\<close>

record verification =
  success :: bool
  extractedText :: "string list"

text \<open>The box of a text item as the loop reads it: the origin from the transform, with
  \<open>y\<close> turned to the top-left origin, and the size with its fallbacks.\<close>

definition run_x :: "textItem \<Rightarrow> real" where
  "run_x textItem = transform4 (transform textItem)"

definition run_y :: "'c page \<Rightarrow> textItem \<Rightarrow> real" where
  "run_y page textItem = snd (getViewport page 1) - transform5 (transform textItem)"

definition run_width :: "textItem \<Rightarrow> real" where
  "run_width textItem = orElse (item_width textItem) 0"

definition run_height :: "textItem \<Rightarrow> real" where
  "run_height textItem = orElse (item_height textItem) 12"

text \<open>The test of the inner loop: does the box of a text item overlap the area?\<close>

definition overlapsArea :: "'c page \<Rightarrow> textItem \<Rightarrow> RedactionArea \<Rightarrow> bool" where
  "overlapsArea page textItem area =
     (let vx = run_x textItem;
          vy = run_y page textItem
      in vx < x area + width area \<and>
         vx + run_width textItem > x area \<and>
         vy < y area + height area \<and>
         vy + run_height textItem > y area)"

fun itemLoop :: "'c page \<Rightarrow> RedactionArea \<Rightarrow> item list \<Rightarrow> string list \<Rightarrow> string list" where
  "itemLoop page area [] extracted = extracted"
| "itemLoop page area (MarkedContent # rest) extracted = itemLoop page area rest extracted"
| "itemLoop page area (TextItem textItem # rest) extracted =
     itemLoop page area rest
       (if overlapsArea page textItem area then extracted @ [str textItem] else extracted)"

fun areaLoop :: "'c pdf \<Rightarrow> RedactionArea list \<Rightarrow> string list \<Rightarrow> string list" where
  "areaLoop pdfJsDoc [] extracted = extracted"
| "areaLoop pdfJsDoc (area # rest) extracted =
     (if pageIndex area \<ge> numPages pdfJsDoc then areaLoop pdfJsDoc rest extracted
      else let page = getPage pdfJsDoc (pageIndex area + 1)
           in areaLoop pdfJsDoc rest (itemLoop page area (items page) extracted))"

definition verifyRedaction :: "'c pdf \<Rightarrow> RedactionArea list \<Rightarrow> verification" where
  "verifyRedaction pdfJsDoc redactionAreas =
     (let extracted = areaLoop pdfJsDoc redactionAreas []
      in \<lparr>success = (length extracted = 0), extractedText = extracted\<rparr>)"

text \<open>The text items of a list of items, in order.\<close>

fun textItems :: "item list \<Rightarrow> textItem list" where
  "textItems [] = []"
| "textItems (MarkedContent # rest) = textItems rest"
| "textItems (TextItem textItem # rest) = textItem # textItems rest"

subsection \<open>Regular expressions\<close>

text \<open>The four patterns use character classes, \<open>\b\<close>, sequence, the greedy \<open>?\<close>, and
  greedy repetition \<open>{n,}\<close> of a character class (\<open>+\<close> is \<open>{1,}\<close>); a counted group
  \<open>(...){3}\<close> is written out. \<open>ends r s i\<close> lists the positions where a match of \<open>r\<close>
  that starts at \<open>i\<close> can end, in the order in which a backtracking matcher tries them:
  the first one is the match it reports.\<close>

datatype regex =
    Empty
  | Class "char \<Rightarrow> bool"
  | WordBoundary
  | Seq regex regex
  | Optional regex
  | AtLeast nat "char \<Rightarrow> bool"

definition charCode :: "char \<Rightarrow> nat" where
  "charCode c = of_char c"

definition isDigit :: "char \<Rightarrow> bool" where
  "isDigit c = (48 \<le> charCode c \<and> charCode c \<le> 57)"

definition isUpper :: "char \<Rightarrow> bool" where
  "isUpper c = (65 \<le> charCode c \<and> charCode c \<le> 90)"

definition isLower :: "char \<Rightarrow> bool" where
  "isLower c = (97 \<le> charCode c \<and> charCode c \<le> 122)"

text \<open>\<open>\w\<close> and \<open>\s\<close> (of the code units below 256, the white space ones are the
  ASCII ones and the no-break space).\<close>

definition isWordChar :: "char \<Rightarrow> bool" where
  "isWordChar c = (isUpper c \<or> isLower c \<or> isDigit c \<or> c = CHR ''_'')"

definition isSpace :: "char \<Rightarrow> bool" where
  "isSpace c = (charCode c \<in> {9, 10, 11, 12, 13, 32, 160})"

definition oneOf :: "string \<Rightarrow> char \<Rightarrow> bool" where
  "oneOf cs c = (c \<in> set cs)"

definition isWordAt :: "string \<Rightarrow> nat \<Rightarrow> bool" where
  "isWordAt s i = (i < length s \<and> isWordChar (s ! i))"

definition atBoundary :: "string \<Rightarrow> nat \<Rightarrow> bool" where
  "atBoundary s i = ((i > 0 \<and> isWordAt s (i - 1)) \<noteq> isWordAt s i)"

fun ends :: "regex \<Rightarrow> string \<Rightarrow> nat \<Rightarrow> nat list" where
  "ends Empty s i = [i]"
| "ends (Class P) s i = (if i < length s \<and> P (s ! i) then [i + 1] else [])"
| "ends WordBoundary s i = (if atBoundary s i then [i] else [])"
| "ends (Seq r1 r2) s i = concat (map (ends r2 s) (ends r1 s i))"
| "ends (Optional r) s i = ends r s i @ [i]"
| "ends (AtLeast n P) s i =
     (let k = length (takeWhile P (drop i s))
      in map (\<lambda>j. i + j) (rev [n..<Suc k]))"

fun seq :: "regex list \<Rightarrow> regex" where
  "seq [] = Empty"
| "seq [r] = r"
| "seq (r # rs) = Seq r (seq rs)"

definition counted :: "nat \<Rightarrow> regex \<Rightarrow> regex" where
  "counted n r = seq (replicate n r)"

text \<open>The table \<open>PATTERNS\<close>:
  \<^verbatim>\<open>ssn: /\b\d{3}[-\s]?\d{2}[-\s]?\d{4}\b/g\<close>,
  \<^verbatim>\<open>email: /\b[A-Za-z0-9._%+-]+@[A-Za-z0-9.-]+\.[A-Z|a-z]{2,}\b/g\<close>,
  \<^verbatim>\<open>phone: /\b(?:\+?1[-.\s]?)?(?:\(?\d{3}\)?[-.\s]?)?\d{3}[-.\s]?\d{4}\b/g\<close>,
  \<^verbatim>\<open>credit_card: /\b(?:\d{4}[-\s]?){3}\d{4}\b/g\<close>.\<close>

definition digits :: "nat \<Rightarrow> regex" where
  "digits n = counted n (Class isDigit)"

definition dashSpace :: regex where
  "dashSpace = Class (\<lambda>c. c = CHR ''-'' \<or> isSpace c)"

definition dashDotSpace :: regex where
  "dashDotSpace = Class (\<lambda>c. c = CHR ''-'' \<or> c = CHR ''.'' \<or> isSpace c)"

definition alnum :: "char \<Rightarrow> bool" where
  "alnum c = (isUpper c \<or> isLower c \<or> isDigit c)"

fun PATTERNS :: "patternType \<Rightarrow> regex" where
  "PATTERNS ssn =
     seq [WordBoundary, digits 3, Optional dashSpace, digits 2, Optional dashSpace, digits 4,
          WordBoundary]"
| "PATTERNS email =
     seq [WordBoundary, AtLeast 1 (\<lambda>c. alnum c \<or> oneOf ''._%+-'' c), Class (oneOf ''@''),
          AtLeast 1 (\<lambda>c. alnum c \<or> oneOf ''.-'' c), Class (oneOf ''.''),
          AtLeast 2 (\<lambda>c. isUpper c \<or> c = CHR ''|'' \<or> isLower c), WordBoundary]"
| "PATTERNS phone =
     seq [WordBoundary,
          Optional (seq [Optional (Class (oneOf ''+'')), Class (oneOf ''1''), Optional dashDotSpace]),
          Optional (seq [Optional (Class (oneOf ''('')), digits 3, Optional (Class (oneOf '')'')),
                         Optional dashDotSpace]),
          digits 3, Optional dashDotSpace, digits 4, WordBoundary]"
| "PATTERNS credit_card =
     seq [WordBoundary, counted 3 (Seq (digits 4) (Optional dashSpace)), digits 4, WordBoundary]"

text \<open>\<open>regex.exec(s)\<close> for a global regular expression whose \<open>lastIndex\<close> is \<open>i\<close>: the
  leftmost match that starts at \<open>i\<close> or later, as its index and its end (the new
  \<open>lastIndex\<close>), or \<open>null\<close>.\<close>

function exec :: "regex \<Rightarrow> string \<Rightarrow> nat \<Rightarrow> (nat \<times> nat) option" where
  "exec r s i =
     (if i > length s then None
      else case ends r s i of
             [] \<Rightarrow> exec r s (i + 1)
           | e # _ \<Rightarrow> Some (i, e))"
  by pat_completeness auto
termination
  by (relation "measure (\<lambda>(r, s, i). length s + 1 - i)") auto

declare exec.simps [simp del]

definition substring :: "string \<Rightarrow> nat \<Rightarrow> nat \<Rightarrow> string" where
  "substring s i j = take (j - i) (drop i s)"

subsection \<open>detectSensitivePatterns\<close>

record position =
  pos_start :: nat
  pos_end :: nat
  pos_item :: textItem

text \<open>Building \<open>fullText\<close> and \<open>positionMap\<close> from the items of a page.\<close>

fun buildText :: "item list \<Rightarrow> string \<Rightarrow> position list \<Rightarrow> string \<times> position list" where
  "buildText [] fullText positionMap = (fullText, positionMap)"
| "buildText (MarkedContent # rest) fullText positionMap = buildText rest fullText positionMap"
| "buildText (TextItem textItem # rest) fullText positionMap =
     (let start = length fullText;
          fullText = fullText @ str textItem @ '' ''
      in buildText rest fullText
           (positionMap @ [\<lparr>pos_start = start, pos_end = length fullText - 1,
                            pos_item = textItem\<rparr>]))"

text \<open>The loop over \<open>positionMap\<close> for one match: the first position whose range holds
  \<open>matchStart\<close> gives the match its box, and the loop breaks.\<close>

definition pushMatch ::
  "real \<Rightarrow> nat \<Rightarrow> patternType \<Rightarrow> position list \<Rightarrow> nat \<Rightarrow> string \<Rightarrow>
   PatternMatch list \<Rightarrow> PatternMatch list" where
  "pushMatch viewportHeight pageNum pt positionMap matchStart match0 matches =
     (case List.find (\<lambda>pos. pos_start pos \<le> matchStart \<and> pos_end pos \<ge> matchStart) positionMap of
        None \<Rightarrow> matches
      | Some pos \<Rightarrow>
          (let vx = transform4 (transform (pos_item pos));
               vy = viewportHeight - transform5 (transform (pos_item pos))
           in matches @
                [\<lparr>pageIndex = pageNum - 1,
                  x = vx,
                  y = vy - orElse (item_height (pos_item pos)) 12,
                  width = orElse (item_width (pos_item pos)) 100,
                  height = orElse (item_height (pos_item pos)) 12 + 4,
                  match_text = match0,
                  pattern = match0,
                  patternType = pt\<rparr>]))"

text \<open>\<open>while ((match = regex.exec(fullText)) !== null)\<close>. The loop ends when \<open>exec\<close>
  finds no further match; a regular expression that matches the empty string would
  keep it running, which is the value \<open>None\<close>.\<close>

partial_function (option) execLoop ::
  "regex \<Rightarrow> string \<Rightarrow> real \<Rightarrow> nat \<Rightarrow> patternType \<Rightarrow> position list \<Rightarrow> nat \<Rightarrow>
   PatternMatch list \<Rightarrow> PatternMatch list option" where
  "execLoop regex fullText viewportHeight pageNum pt positionMap lastIndex matches =
     (case exec regex fullText lastIndex of
        None \<Rightarrow> Some matches
      | Some (matchStart, matchEnd) \<Rightarrow>
          execLoop regex fullText viewportHeight pageNum pt positionMap matchEnd
            (pushMatch viewportHeight pageNum pt positionMap matchStart
               (substring fullText matchStart matchEnd) matches))"

declare execLoop.simps [code]

text \<open>\<open>for (const patternType of patternTypes)\<close>, each with a fresh regular expression
  (\<open>lastIndex\<close> 0).\<close>

fun patternLoop ::
  "string \<Rightarrow> real \<Rightarrow> nat \<Rightarrow> position list \<Rightarrow> patternType list \<Rightarrow>
   PatternMatch list \<Rightarrow> PatternMatch list option" where
  "patternLoop fullText viewportHeight pageNum positionMap [] matches = Some matches"
| "patternLoop fullText viewportHeight pageNum positionMap (pt # rest) matches =
     (case execLoop (PATTERNS pt) fullText viewportHeight pageNum pt positionMap 0 matches of
        None \<Rightarrow> None
      | Some matches \<Rightarrow> patternLoop fullText viewportHeight pageNum positionMap rest matches)"

definition detectPage ::
  "'c pdf \<Rightarrow> patternType list \<Rightarrow> nat \<Rightarrow> PatternMatch list \<Rightarrow> PatternMatch list option" where
  "detectPage pdfJsDoc patternTypes pageNum matches =
     (let page = getPage pdfJsDoc pageNum;
          viewport = getViewport page 1;
          (fullText, positionMap) = buildText (items page) [] []
      in patternLoop fullText (snd viewport) pageNum positionMap patternTypes matches)"

function detectLoop ::
  "'c pdf \<Rightarrow> patternType list \<Rightarrow> nat \<Rightarrow> PatternMatch list \<Rightarrow> PatternMatch list option" where
  "detectLoop pdfJsDoc patternTypes pageNum matches =
     (if pageNum \<le> numPages pdfJsDoc then
        (case detectPage pdfJsDoc patternTypes pageNum matches of
           None \<Rightarrow> None
         | Some matches \<Rightarrow> detectLoop pdfJsDoc patternTypes (pageNum + 1) matches)
      else Some matches)"
  by pat_completeness auto
termination
  by (relation "measure (\<lambda>(pdfJsDoc, patternTypes, pageNum, matches).
                  numPages pdfJsDoc + 1 - pageNum)") auto

declare detectLoop.simps [simp del]

definition detectSensitivePatterns :: "'c pdf \<Rightarrow> patternType list \<Rightarrow> PatternMatch list option" where
  "detectSensitivePatterns pdfJsDoc patternTypes = detectLoop pdfJsDoc patternTypes 1 []"

text \<open>The default of the parameter \<open>patternTypes\<close>.\<close>

definition allPatternTypes :: "patternType list" where
  "allPatternTypes = [ssn, email, phone, credit_card]"

definition patternMatchesToRedactions :: "PatternMatch list \<Rightarrow> RedactionArea list" where
  "patternMatchesToRedactions matches =
     map (\<lambda>m. \<lparr>pageIndex = pageIndex m, x = x m, y = y m, width = width m, height = height m\<rparr>)
       matches"

subsection \<open>findTextInPdf\<close>

text \<open>\<open>toLowerCase\<close> on code units below 256: the ASCII capitals, and the capitals
  of Latin-1 (U+00C0 to U+00DE but the multiplication sign).\<close>

definition lowerChar :: "char \<Rightarrow> char" where
  "lowerChar c =
     (if isUpper c \<or> (192 \<le> charCode c \<and> charCode c \<le> 222 \<and> charCode c \<noteq> 215)
      then char_of (charCode c + 32) else c)"

definition toLowerCase :: "string \<Rightarrow> string" where
  "toLowerCase s = map lowerChar s"

text \<open>\<open>s.includes(t)\<close>: \<open>t\<close> occurs in \<open>s\<close> as a substring.\<close>

fun isPrefix :: "string \<Rightarrow> string \<Rightarrow> bool" where
  "isPrefix [] s = True"
| "isPrefix (c # t) [] = False"
| "isPrefix (c # t) (d # s) = (c = d \<and> isPrefix t s)"

fun includes_str :: "string \<Rightarrow> string \<Rightarrow> bool" where
  "includes_str [] t = isPrefix t []"
| "includes_str (c # s) t = (isPrefix t (c # s) \<or> includes_str s t)"

text \<open>The match pushed for a text item that contains the search term.\<close>

definition itemMatch :: "real \<Rightarrow> nat \<Rightarrow> textItem \<Rightarrow> TextMatch" where
  "itemMatch viewportHeight pageNum textItem =
     (let vx = transform4 (transform textItem);
          vy = viewportHeight - transform5 (transform textItem)
      in \<lparr>pageIndex = pageNum - 1,
          x = vx,
          y = vy - orElse (item_height textItem) 12,
          width = orElse (item_width textItem) 100,
          height = orElse (item_height textItem) 12 + 4,
          match_text = str textItem\<rparr>)"

text \<open>\<open>caseSensitive ? s : s.toLowerCase()\<close>, applied to the search term and to the
  text of each item.\<close>

definition foldCase :: "bool \<Rightarrow> string \<Rightarrow> string" where
  "foldCase caseSensitive s = (if caseSensitive then s else toLowerCase s)"

fun findItems ::
  "bool \<Rightarrow> string \<Rightarrow> real \<Rightarrow> nat \<Rightarrow> item list \<Rightarrow> TextMatch list \<Rightarrow> TextMatch list" where
  "findItems caseSensitive searchTermLower viewportHeight pageNum [] matches = matches"
| "findItems caseSensitive searchTermLower viewportHeight pageNum (MarkedContent # rest) matches =
     findItems caseSensitive searchTermLower viewportHeight pageNum rest matches"
| "findItems caseSensitive searchTermLower viewportHeight pageNum (TextItem textItem # rest) matches =
     (let itemText = foldCase caseSensitive (str textItem)
      in findItems caseSensitive searchTermLower viewportHeight pageNum rest
           (if includes_str itemText searchTermLower
            then matches @ [itemMatch viewportHeight pageNum textItem]
            else matches))"

function findLoop ::
  "'c pdf \<Rightarrow> bool \<Rightarrow> string \<Rightarrow> nat \<Rightarrow> TextMatch list \<Rightarrow> TextMatch list" where
  "findLoop pdfJsDoc caseSensitive searchTermLower pageNum matches =
     (if pageNum \<le> numPages pdfJsDoc then
        (let page = getPage pdfJsDoc pageNum;
             viewport = getViewport page 1
         in findLoop pdfJsDoc caseSensitive searchTermLower (pageNum + 1)
              (findItems caseSensitive searchTermLower (snd viewport) pageNum (items page) matches))
      else matches)"
  by pat_completeness auto
termination
  by (relation "measure (\<lambda>(pdfJsDoc, caseSensitive, searchTermLower, pageNum, matches).
                  numPages pdfJsDoc + 1 - pageNum)") auto

declare findLoop.simps [simp del]

definition findTextInPdf :: "'c pdf \<Rightarrow> string \<Rightarrow> bool \<Rightarrow> TextMatch list" where
  "findTextInPdf pdfJsDoc searchTerm caseSensitive =
     (let searchTermLower = foldCase caseSensitive searchTerm
      in findLoop pdfJsDoc caseSensitive searchTermLower 1 [])"

definition findAndCreateRedactions :: "'c pdf \<Rightarrow> string \<Rightarrow> bool \<Rightarrow> RedactionArea list" where
  "findAndCreateRedactions pdfJsDoc searchTerm caseSensitive =
     map (\<lambda>m. \<lparr>pageIndex = pageIndex m, x = x m, y = y m, width = width m, height = height m\<rparr>)
       (findTextInPdf pdfJsDoc searchTerm caseSensitive)"

subsection \<open>Auxiliary functions for the proofs\<close>

text \<open>The least length of a match.\<close>

fun minLen :: "regex \<Rightarrow> nat" where
  "minLen Empty = 0"
| "minLen (Class P) = 1"
| "minLen WordBoundary = 0"
| "minLen (Seq r1 r2) = minLen r1 + minLen r2"
| "minLen (Optional r) = 0"
| "minLen (AtLeast n P) = n"

text \<open>The successive matches that repeated calls of \<open>exec\<close> report from \<open>lastIndex = i\<close>
  on, as pairs of index and end, for as long as each match moves \<open>lastIndex\<close> forward.\<close>

function matchSpans :: "regex \<Rightarrow> string \<Rightarrow> nat \<Rightarrow> (nat \<times> nat) list" where
  "matchSpans r s i =
     (case exec r s i of
        None \<Rightarrow> []
      | Some (a, e) \<Rightarrow> if i < e \<and> e \<le> length s then (a, e) # matchSpans r s e else [])"
  by pat_completeness auto
termination
  by (relation "measure (\<lambda>(r, s, i). length s - i)") auto

declare matchSpans.simps [simp del]

text \<open>The concatenated text of a page and its position map.\<close>

definition fullTextOf :: "'c page \<Rightarrow> string" where
  "fullTextOf page = fst (buildText (items page) [] [])"

definition positionMapOf :: "'c page \<Rightarrow> position list" where
  "positionMapOf page = snd (buildText (items page) [] [])"

text \<open>The matches pushed for a list of regular-expression matches, and for a page.\<close>

definition spanMatches ::
  "string \<Rightarrow> real \<Rightarrow> nat \<Rightarrow> patternType \<Rightarrow> position list \<Rightarrow> (nat \<times> nat) list \<Rightarrow>
   PatternMatch list" where
  "spanMatches s vh pn pt pm spans =
     concat (map (\<lambda>(a, e). pushMatch vh pn pt pm a (substring s a e) []) spans)"

definition typeMatches :: "'c pdf \<Rightarrow> nat \<Rightarrow> patternType \<Rightarrow> PatternMatch list" where
  "typeMatches doc pageNum pt =
     (let page = getPage doc pageNum
      in spanMatches (fullTextOf page) (viewHeight page) pageNum pt (positionMapOf page)
           (matchSpans (PATTERNS pt) (fullTextOf page) 0))"

subsection \<open>A sample document\<close>

definition samplePage1 :: "nat page" where
  "samplePage1 =
     \<lparr>items = [TextItem \<lparr>str = ''SSN: 123-45-6789'', transform = (1, 0, 0, 1, 72, 700),
                               item_width = 120, item_height = 12\<rparr>],
      viewWidth = 612, viewHeight = 792, content = 1\<rparr>"

definition samplePage2 :: "nat page" where
  "samplePage2 =
     \<lparr>items = [MarkedContent,
               TextItem \<lparr>str = ''Hello'', transform = (1, 0, 0, 1, 72, 650),
                               item_width = 30, item_height = 0\<rparr>],
      viewWidth = 612, viewHeight = 792, content = 2\<rparr>"

definition sampleInfo :: metadata where
  "sampleInfo =
     \<lparr>title = Some ''Payroll'', author = Some ''J. Doe'', subject = None, keywordList = None,
      producer = Some ''pdf-lib'', creator = Some ''pdf-lib'',
      creationDate = Some 100, modificationDate = Some 100\<rparr>"

definition sampleDoc :: "nat pdf" where
  "sampleDoc = \<lparr>pages = [samplePage1, samplePage2], info = sampleInfo\<rparr>"

definition sampleArea :: RedactionArea where
  "sampleArea = \<lparr>pageIndex = 0, x = 100, y = 85, width = 80, height = 16\<rparr>"

text \<open>A page where a number is split over two runs, and one where a word is.\<close>

definition splitDoc :: "nat pdf" where
  "splitDoc =
     \<lparr>pages = [\<lparr>items = [TextItem \<lparr>str = ''123-45'', transform = (1, 0, 0, 1, 72, 700),
                                         item_width = 40, item_height = 12\<rparr>,
                         TextItem \<lparr>str = ''6789'', transform = (1, 0, 0, 1, 115, 700),
                                         item_width = 28, item_height = 12\<rparr>],
                viewWidth = 612, viewHeight = 792, content = 1\<rparr>],
      info = sampleInfo\<rparr>"

definition confDoc :: "nat pdf" where
  "confDoc =
     \<lparr>pages = [\<lparr>items = [TextItem \<lparr>str = ''CONF'', transform = (1, 0, 0, 1, 72, 700),
                                         item_width = 30, item_height = 12\<rparr>,
                         TextItem \<lparr>str = ''IDENTIAL'', transform = (1, 0, 0, 1, 102, 700),
                                         item_width = 55, item_height = 12\<rparr>],
                viewWidth = 612, viewHeight = 792, content = 1\<rparr>],
      info = sampleInfo\<rparr>"

text \<open>A page with a number of the \<open>ssn\<close> shape and an e-mail address.\<close>

definition mixedDoc :: "nat pdf" where
  "mixedDoc =
     \<lparr>pages = [\<lparr>items = [TextItem \<lparr>str = ''555-12-3456'', transform = (1, 0, 0, 1, 72, 700),
                                         item_width = 70, item_height = 12\<rparr>,
                         TextItem \<lparr>str = ''a@b.com'', transform = (1, 0, 0, 1, 72, 680),
                                         item_width = 50, item_height = 0\<rparr>],
                viewWidth = 612, viewHeight = 792, content = 1\<rparr>],
      info = sampleInfo\<rparr>"

text \<open>An area on a page that the sample document does not have.\<close>

definition farArea :: RedactionArea where
  "farArea = \<lparr>pageIndex = 5, x = 0, y = 0, width = 612, height = 792\<rparr>"

text \<open>A renderer that draws every page, and one that fails on the second page.\<close>

definition renderAll :: "nat page \<Rightarrow> real \<Rightarrow> string + nat" where
  "renderAll page scale = Inr (content page)"

definition renderFirstOnly :: "nat page \<Rightarrow> real \<Rightarrow> string + nat" where
  "renderFirstOnly page scale =
     (if content page = 1 then Inr (content page) else Inl ''render failed'')"

text \<open>The sample document, flattened at scale 2 with \<open>sampleArea\<close> masked.\<close>

definition sampleOut :: "nat flattened pdf" where
  "sampleOut =
     \<lparr>pages =
        [\<lparr>items = [], viewWidth = 612, viewHeight = 792,
          content = \<lparr>image = \<lparr>canvas_width = 1224, canvas_height = 1584, rendered = Some 1,
                               fillStyle = ''#000000'',
                               filled = [(''#000000'', 200, 170, 160, 32)]\<rparr>,
                     image_x = 0, image_y = 0, image_width = 612, image_height = 792\<rparr>\<rparr>,
         \<lparr>items = [], viewWidth = 612, viewHeight = 792,
          content = \<lparr>image = \<lparr>canvas_width = 1224, canvas_height = 1584, rendered = Some 2,
                               fillStyle = ''#000000'', filled = []\<rparr>,
                     image_x = 0, image_y = 0, image_width = 612, image_height = 792\<rparr>\<rparr>],
      info = \<lparr>title = Some '''', author = Some '''', subject = Some '''', keywordList = Some [],
              producer = Some ''ActuallyRedactPDF - True Redaction'',
              creator = Some ''ActuallyRedactPDF'',
              creationDate = Some 100, modificationDate = Some 100\<rparr>\<rparr>"

section \<open>Properties of the renderer\<close>

subsection \<open>Grouping, drawing, and the page loop\<close>

lemma getOrEmpty_fold:
  "getOrEmpty (fold groupStep areas m) i = getOrEmpty m i @ filter (\<lambda>a. pageIndex a = i) areas"
  by (induction areas arbitrary: m) (auto simp: groupStep_def getOrEmpty_def Let_def)

lemma getOrEmpty_redactionsByPage:
  "getOrEmpty (redactionsByPage areas) i = filter (\<lambda>a. pageIndex a = i) areas"
  by (simp add: redactionsByPage_def getOrEmpty_fold) (simp add: getOrEmpty_def)

lemma fold_drawArea:
  "fold (drawArea s) as ctx =
     ctx\<lparr>filled := filled ctx @
            map (\<lambda>a. (fillStyle ctx, x a * s, y a * s, width a * s, height a * s)) as\<rparr>"
  by (induction as arbitrary: ctx) (auto simp: drawArea_def fillRect_def Let_def)

lemma flattenPage_Inr_exact:
  assumes "flattenPage r b s d k = Inr np"
  shows "\<exists>px. r (getPage d k) s = Inr px \<and>
    np = \<lparr>items = [], viewWidth = viewWidth (getPage d k), viewHeight = viewHeight (getPage d k),
          content =
            \<lparr>image = (createCanvas (viewWidth (getPage d k) * s) (viewHeight (getPage d k) * s))
                        \<lparr>rendered := Some px,
                         filled := map (\<lambda>a. (''#000000'', x a * s, y a * s, width a * s, height a * s))
                                     (getOrEmpty b (k - 1))\<rparr>,
             image_x = 0, image_y = 0, image_width = viewWidth (getPage d k),
             image_height = viewHeight (getPage d k)\<rparr>\<rparr>"
proof -
  from assms obtain px where px: "r (getPage d k) s = Inr px"
    by (auto simp: flattenPage_def Let_def split: sum.splits)
  from assms px show ?thesis
    by (auto simp: flattenPage_def Let_def getViewport_def createCanvas_def fold_drawArea)
qed

lemma flattenPage_Inr:
  assumes "flattenPage r b s d k = Inr p"
  shows "items p = [] \<and> viewWidth p = viewWidth (getPage d k) \<and>
     viewHeight p = viewHeight (getPage d k) \<and>
     r (getPage d k) s = Inr (the (rendered (image (content p))))"
  using flattenPage_Inr_exact[OF assms] by auto

lemma flattenPage_Inl:
  "flattenPage r b s d k = Inl e \<longleftrightarrow> r (getPage d k) s = Inl e"
  by (auto simp: flattenPage_def Let_def split: sum.splits)

lemma flattenPage_cong:
  "getOrEmpty b (k - 1) = getOrEmpty b' (k - 1) \<Longrightarrow>
   flattenPage r b s d k = flattenPage r b' s d k"
  by (simp add: flattenPage_def Let_def split: sum.splits)

text \<open>When the page loop returns pages, it has added one page for each page number
  from \<open>n\<close> on, in order, each the flattened page of that number.\<close>

lemma pageLoop_Inr:
  "pageLoop r b s d n acc = Inr out \<Longrightarrow>
     length out = length acc + (numPages d + 1 - n) \<and> take (length acc) out = acc \<and>
     (\<forall>k. n \<le> k \<and> k \<le> numPages d \<longrightarrow>
          flattenPage r b s d k = Inr (out ! (length acc + (k - n))))"
proof (induction r b s d n acc arbitrary: out rule: pageLoop.induct)
  case (1 render byPage renderScale pdfJsDoc pageNum newPages)
  show ?case
  proof (cases "pageNum \<le> numPages pdfJsDoc")
    case False
    with "1.prems" show ?thesis by (auto simp: pageLoop.simps[of _ _ _ _ pageNum])
  next
    case True
    with "1.prems" obtain np
      where np: "flattenPage render byPage renderScale pdfJsDoc pageNum = Inr np"
        and rec: "pageLoop render byPage renderScale pdfJsDoc (pageNum + 1) (newPages @ [np]) = Inr out"
      by (auto simp: pageLoop.simps[of _ _ _ _ pageNum] split: sum.splits)
    from "1.IH"[OF True np rec]
    have len: "length out = length (newPages @ [np]) + (numPages pdfJsDoc + 1 - (pageNum + 1))"
      and tk: "take (length (newPages @ [np])) out = newPages @ [np]"
      and ks: "\<forall>k. pageNum + 1 \<le> k \<and> k \<le> numPages pdfJsDoc \<longrightarrow>
          flattenPage render byPage renderScale pdfJsDoc k =
            Inr (out ! (length (newPages @ [np]) + (k - (pageNum + 1))))"
      by blast+
    have l1: "length out = length newPages + (numPages pdfJsDoc + 1 - pageNum)"
      using len True by simp
    have t1: "take (length newPages) out = newPages"
    proof -
      have "take (length newPages) (take (length (newPages @ [np])) out) =
            take (length newPages) (newPages @ [np])"
        by (simp only: tk)
      then show ?thesis by (simp add: min_def)
    qed
    have o1: "out ! length newPages = np"
    proof -
      have "(take (length (newPages @ [np])) out) ! length newPages =
            (newPages @ [np]) ! length newPages"
        by (simp only: tk)
      then show ?thesis by simp
    qed
    have k1: "flattenPage render byPage renderScale pdfJsDoc k =
              Inr (out ! (length newPages + (k - pageNum)))"
      if "pageNum \<le> k" "k \<le> numPages pdfJsDoc" for k
    proof (cases "k = pageNum")
      case True
      then show ?thesis using np o1 by simp
    next
      case False
      with that have up: "pageNum + 1 \<le> k" by simp
      with ks that have A: "flattenPage render byPage renderScale pdfJsDoc k =
          Inr (out ! (length (newPages @ [np]) + (k - (pageNum + 1))))"
        by blast
      have idx: "length (newPages @ [np]) + (k - (pageNum + 1)) = length newPages + (k - pageNum)"
        using up by simp
      from A show ?thesis unfolding idx .
    qed
    from l1 t1 k1 show ?thesis by blast
  qed
qed

text \<open>When flattening a page fails, the page loop stops with the error of the first page
  that fails.\<close>

lemma pageLoop_Inl:
  "n \<le> k \<Longrightarrow> k \<le> numPages d \<Longrightarrow> flattenPage r b s d k = Inl e \<Longrightarrow>
   \<exists>j e'. n \<le> j \<and> j \<le> k \<and> flattenPage r b s d j = Inl e' \<and>
          pageLoop r b s d n acc = Inl e'"
proof (induction r b s d n acc rule: pageLoop.induct)
  case (1 render byPage renderScale pdfJsDoc pageNum newPages)
  from "1.prems" have le: "pageNum \<le> numPages pdfJsDoc" by simp
  show ?case
  proof (cases "flattenPage render byPage renderScale pdfJsDoc pageNum")
    case (Inl a)
    then have "pageLoop render byPage renderScale pdfJsDoc pageNum newPages = Inl a"
      using le by (simp add: pageLoop.simps[of _ _ _ _ pageNum])
    with Inl "1.prems"(1) show ?thesis by blast
  next
    case (Inr np)
    with "1.prems" have "k \<noteq> pageNum" by auto
    with "1.prems" have "pageNum + 1 \<le> k" by simp
    from "1.IH"[OF le Inr this "1.prems"(2,3)]
    obtain j e' where j: "pageNum + 1 \<le> j" "j \<le> k"
        "flattenPage render byPage renderScale pdfJsDoc j = Inl e'"
        "pageLoop render byPage renderScale pdfJsDoc (pageNum + 1) (newPages @ [np]) = Inl e'"
      by blast
    have "pageLoop render byPage renderScale pdfJsDoc pageNum newPages = Inl e'"
      using le Inr j(4) by (simp add: pageLoop.simps[of _ _ _ _ pageNum])
    with j show ?thesis by (intro exI[of _ j] exI[of _ e']) simp
  qed
qed

text \<open>The loop reads the map of areas only at the indices of the document's pages.\<close>

lemma pageLoop_cong:
  "(\<forall>i<numPages d. getOrEmpty b i = getOrEmpty b' i) \<Longrightarrow> 1 \<le> n \<Longrightarrow>
   pageLoop r b s d n acc = pageLoop r b' s d n acc"
proof (induction r b s d n acc rule: pageLoop.induct)
  case (1 render byPage renderScale pdfJsDoc pageNum newPages)
  show ?case
  proof (cases "pageNum \<le> numPages pdfJsDoc")
    case False
    then show ?thesis by (simp add: pageLoop.simps[of _ _ _ _ pageNum])
  next
    case True
    with "1.prems" have "getOrEmpty byPage (pageNum - 1) = getOrEmpty b' (pageNum - 1)" by simp
    then have fp: "flattenPage render byPage renderScale pdfJsDoc pageNum =
                   flattenPage render b' renderScale pdfJsDoc pageNum"
      by (rule flattenPage_cong)
    show ?thesis
    proof (cases "flattenPage render byPage renderScale pdfJsDoc pageNum")
      case (Inl a)
      then show ?thesis using True fp by (simp add: pageLoop.simps[of _ _ _ _ pageNum])
    next
      case (Inr np)
      from "1.IH"[OF True Inr "1.prems"(1)]
      have M: "pageLoop render byPage renderScale pdfJsDoc (pageNum + 1) (newPages @ [np]) =
               pageLoop render b' renderScale pdfJsDoc (pageNum + 1) (newPages @ [np])"
        by simp
      have L: "pageLoop render byPage renderScale pdfJsDoc pageNum newPages =
               pageLoop render byPage renderScale pdfJsDoc (pageNum + 1) (newPages @ [np])"
        by (subst pageLoop.simps) (simp add: True Inr)
      from Inr fp have Inr': "flattenPage render b' renderScale pdfJsDoc pageNum = Inr np" by simp
      have R: "pageLoop render b' renderScale pdfJsDoc pageNum newPages =
               pageLoop render b' renderScale pdfJsDoc (pageNum + 1) (newPages @ [np])"
        by (subst pageLoop.simps) (simp add: True Inr')
      from L M R show ?thesis by simp
    qed
  qed
qed

lemma pageLoop_items:
  assumes "pageLoop r b s d 1 [] = Inr out"
  shows "\<forall>p\<in>set out. items p = []"
proof
  fix p assume "p \<in> set out"
  then obtain j where j: "j < length out" "out ! j = p" by (auto simp: in_set_conv_nth)
  from pageLoop_Inr[OF assms] have len: "length out = numPages d"
    and ks: "\<And>k. 1 \<le> k \<Longrightarrow> k \<le> numPages d \<Longrightarrow> flattenPage r b s d k = Inr (out ! (k - 1))"
    by auto
  from j len have "flattenPage r b s d (j + 1) = Inr (out ! j)" using ks[of "j + 1"] by simp
  with j show "items p = []" using flattenPage_Inr by blast
qed

lemma redact_Inr:
  "redactPdfByAreas r c d as s = Inr out \<Longrightarrow>
     pageLoop r (redactionsByPage as) s d 1 [] = Inr (pages out) \<and>
     info out = c\<lparr>title := Some '''', author := Some '''', subject := Some '''',
                  keywordList := Some [],
                  producer := Some ''ActuallyRedactPDF - True Redaction'',
                  creator := Some ''ActuallyRedactPDF''\<rparr>"
  by (auto simp: redactPdfByAreas_def Let_def split: sum.splits)

text \<open>When every page renders, the page loop and \<open>redactPdfByAreas\<close> return a document.\<close>

lemma pageLoop_returns:
  "(\<forall>k. n \<le> k \<and> k \<le> numPages d \<longrightarrow> (\<exists>px. r (getPage d k) s = Inr px)) \<Longrightarrow>
   \<exists>out. pageLoop r b s d n acc = Inr out"
proof (induction r b s d n acc rule: pageLoop.induct)
  case (1 render byPage renderScale pdfJsDoc pageNum newPages)
  show ?case
  proof (cases "pageNum \<le> numPages pdfJsDoc")
    case False
    then show ?thesis by (simp add: pageLoop.simps[of _ _ _ _ pageNum])
  next
    case True
    with "1.prems" obtain px where "render (getPage pdfJsDoc pageNum) renderScale = Inr px" by blast
    then obtain np where np: "flattenPage render byPage renderScale pdfJsDoc pageNum = Inr np"
      by (simp add: flattenPage_def Let_def)
    from "1.prems" have "\<forall>k. pageNum + 1 \<le> k \<and> k \<le> numPages pdfJsDoc \<longrightarrow>
        (\<exists>px. render (getPage pdfJsDoc k) renderScale = Inr px)" by simp
    from "1.IH"[OF True np this] show ?thesis
      using True np by (simp add: pageLoop.simps[of _ _ _ _ pageNum])
  qed
qed

lemma redact_returns:
  assumes "\<forall>p\<in>set (pages doc). \<exists>px. render p renderScale = Inr px"
  shows "\<exists>out. redactPdfByAreas render created doc areas renderScale = Inr out"
proof -
  have "\<forall>k. 1 \<le> k \<and> k \<le> numPages doc \<longrightarrow> (\<exists>px. render (getPage doc k) renderScale = Inr px)"
    using assms by (auto simp: getPage_def numPages_def)
  from pageLoop_returns[where r = render and d = doc and s = renderScale and n = 1, OF this]
  obtain out where "pageLoop render (redactionsByPage areas) renderScale doc 1 [] = Inr out"
    by blast
  then show ?thesis by (simp add: redactPdfByAreas_def)
qed

subsection \<open>The loops of the verifier\<close>

lemma itemLoop_eq:
  "itemLoop page area its acc =
     acc @ map str (filter (\<lambda>t. overlapsArea page t area) (textItems its))"
  by (induction page area its acc rule: itemLoop.induct) auto

lemma areaLoop_eq:
  "areaLoop doc areas acc =
     acc @ concat (map (\<lambda>area. if pageIndex area < numPages doc
        then map str (filter (\<lambda>t. overlapsArea (pages doc ! pageIndex area) t area)
                         (textItems (items (pages doc ! pageIndex area))))
        else []) areas)"
  by (induction doc areas acc rule: areaLoop.induct)
     (auto simp: itemLoop_eq getPage_def Let_def)

lemma set_textItems: "t \<in> set (textItems its) \<longleftrightarrow> TextItem t \<in> set its"
  by (induction its rule: textItems.induct) auto

lemma concat_map_Nil: "(concat (map f xs) = []) = (\<forall>x\<in>set xs. f x = [])"
  by (induction xs) auto

text \<open>The verifier reads the pages only, so sanitizing in between changes nothing.\<close>

lemma verify_after_sanitize:
  "verifyRedaction (sanitizePdf c m doc) areas = verifyRedaction doc areas"
proof -
  have "pages (sanitizePdf c m doc) = pages doc" by (simp add: sanitizePdf_def)
  then show ?thesis by (simp add: verifyRedaction_def areaLoop_eq numPages_def cong: if_cong)
qed

lemma areaLoop_skip:
  "numPages doc \<le> pageIndex a \<Longrightarrow> areaLoop doc (as @ a # bs) acc = areaLoop doc (as @ bs) acc"
  by (simp add: areaLoop_eq)

subsection \<open>Evaluating the samples\<close>

lemmas sample_defs = sampleDoc_def samplePage1_def samplePage2_def sampleInfo_def sampleArea_def
  farArea_def renderAll_def renderFirstOnly_def

lemmas redact_defs = redactPdfByAreas_def pageLoop.simps flattenPage_def numPages_def getPage_def
  getViewport_def createCanvas_def redactionsByPage_def groupStep_def
  getOrEmpty_def drawArea_def fillRect_def Let_def

lemma sample_redact:
  "redactPdfByAreas renderAll sampleInfo sampleDoc [sampleArea] 2 = Inr sampleOut"
  by (simp add: sample_defs redact_defs sampleOut_def)

lemma sample_numPages: "numPages sampleDoc = 2"
  by (simp add: sample_defs numPages_def)

section \<open>The claims about the renderer, the verifier and the sanitizer\<close>

text \<open>C1. Whenever \<open>redactPdfByAreas\<close> returns a document, \<open>verifyRedaction\<close> on that
  document with the same areas reports success, with no extracted text: every page of
  the output is an image and has no text item, so no run overlaps any area.\<close>

theorem redact_then_verify_succeeds:
  assumes "redactPdfByAreas render created doc areas renderScale = Inr out"
  shows "verifyRedaction out areas = \<lparr>success = True, extractedText = []\<rparr>"
proof -
  from redact_Inr[OF assms]
  have "pageLoop render (redactionsByPage areas) renderScale doc 1 [] = Inr (pages out)"
    by simp
  from pageLoop_items[OF this] have e: "\<forall>p\<in>set (pages out). items p = []" .
  have "areaLoop out areas [] = []"
    unfolding areaLoop_eq using e by (auto simp: numPages_def)
  then show ?thesis by (simp add: verifyRedaction_def)
qed

theorem redact_then_verify_succeeds_witness:
  "redactPdfByAreas renderAll sampleInfo sampleDoc [sampleArea] 2 = Inr sampleOut \<and>
   verifyRedaction sampleOut [sampleArea] = \<lparr>success = True, extractedText = []\<rparr>"
  using redact_then_verify_succeeds[OF sample_redact] sample_redact by simp

text \<open>C2, as the code has it. A page that owns no area is flattened like every other
  page: the output page has the size of the original and holds only the image of the
  rendered page, with no rectangle painted on it, and it has no text item.\<close>

theorem zero_region_page_is_flattened:
  assumes "redactPdfByAreas render created doc areas renderScale = Inr out"
    and "i < numPages doc"
    and "\<forall>a\<in>set areas. pageIndex a \<noteq> i"
  shows "\<exists>px. render (pages doc ! i) renderScale = Inr px \<and>
     pages out ! i =
       \<lparr>items = [], viewWidth = viewWidth (pages doc ! i), viewHeight = viewHeight (pages doc ! i),
        content = \<lparr>image = (createCanvas (viewWidth (pages doc ! i) * renderScale)
                                         (viewHeight (pages doc ! i) * renderScale))
                               \<lparr>rendered := Some px\<rparr>,
                   image_x = 0, image_y = 0, image_width = viewWidth (pages doc ! i),
                   image_height = viewHeight (pages doc ! i)\<rparr>\<rparr>"
proof -
  from redact_Inr[OF assms(1)]
  have "pageLoop render (redactionsByPage areas) renderScale doc 1 [] = Inr (pages out)" by simp
  from pageLoop_Inr[OF this] assms(2)
  have fp: "flattenPage render (redactionsByPage areas) renderScale doc (i + 1) = Inr (pages out ! i)"
    by auto
  have "getOrEmpty (redactionsByPage areas) i = []"
    using assms(3) by (simp add: getOrEmpty_redactionsByPage filter_empty_conv)
  with flattenPage_Inr_exact[OF fp] show ?thesis
    by (auto simp: getPage_def createCanvas_def)
qed

theorem zero_region_page_is_flattened_witness:
  "redactPdfByAreas renderAll sampleInfo sampleDoc [sampleArea] 2 = Inr sampleOut \<and>
   (1::nat) < numPages sampleDoc \<and> pageIndex sampleArea \<noteq> 1 \<and>
   (\<exists>px. renderAll (pages sampleDoc ! 1) 2 = Inr px \<and>
     pages sampleOut ! 1 =
       \<lparr>items = [], viewWidth = viewWidth (pages sampleDoc ! 1),
        viewHeight = viewHeight (pages sampleDoc ! 1),
        content = \<lparr>image = (createCanvas (viewWidth (pages sampleDoc ! 1) * 2)
                                         (viewHeight (pages sampleDoc ! 1) * 2))
                               \<lparr>rendered := Some px\<rparr>,
                   image_x = 0, image_y = 0, image_width = viewWidth (pages sampleDoc ! 1),
                   image_height = viewHeight (pages sampleDoc ! 1)\<rparr>\<rparr>)"
proof -
  have h2: "(1::nat) < numPages sampleDoc" by (simp add: sample_numPages)
  have h3: "\<forall>a\<in>set [sampleArea]. pageIndex a \<noteq> 1" by (simp add: sample_defs)
  from zero_region_page_is_flattened[OF sample_redact h2 h3] sample_redact h2 h3
  show ?thesis by simp
qed

text \<open>C2 as stated fails: the second page of the sample document owns no area, and its
  text run is gone from the output.\<close>

theorem zero_region_page_text_lost:
  "pageIndex sampleArea \<noteq> 1 \<and>
   redactPdfByAreas renderAll sampleInfo sampleDoc [sampleArea] 2 = Inr sampleOut \<and>
   map str (textItems (items (pages sampleDoc ! 1))) = [''Hello''] \<and>
   textItems (items (pages sampleOut ! 1)) = []"
  using sample_redact by (simp add: sample_defs sampleOut_def)

text \<open>C4. \<open>verifyRedaction\<close> reports success exactly when no text run of a page overlaps
  an area of that page, by the four comparisons of the rectangle test, and
  \<open>extractedText\<close> is the text of every overlapping run, area by area, whether or not
  the list is empty. The box of a run is the one that the verifier reads: the width is
  \<open>width || 0\<close> and the height \<open>height || 12\<close>. An area whose page the document does
  not have has no runs.\<close>

theorem verify_success_iff_no_overlap:
  fixes doc :: "'c pdf"
  shows
   "success (verifyRedaction doc areas) =
     (\<not> (\<exists>area\<in>set areas. pageIndex area < numPages doc \<and>
           (\<exists>run. TextItem run \<in> set (items (pages doc ! pageIndex area)) \<and>
              run_x run < x area + width area \<and>
              run_x run + run_width run > x area \<and>
              run_y (pages doc ! pageIndex area) run < y area + height area \<and>
              run_y (pages doc ! pageIndex area) run + run_height run > y area))) \<and>
   extractedText (verifyRedaction doc areas) =
     concat (map (\<lambda>area.
        if pageIndex area < numPages doc
        then map str (filter (\<lambda>run.
              run_x run < x area + width area \<and>
              run_x run + run_width run > x area \<and>
              run_y (pages doc ! pageIndex area) run < y area + height area \<and>
              run_y (pages doc ! pageIndex area) run + run_height run > y area)
            (textItems (items (pages doc ! pageIndex area))))
        else []) areas)"
proof -
  let ?ov = "\<lambda>area run. run_x run < x area + width area \<and>
              run_x run + run_width run > x area \<and>
              run_y (pages doc ! pageIndex area) run < y area + height area \<and>
              run_y (pages doc ! pageIndex area) run + run_height run > y area"
  let ?found = "\<lambda>area. if pageIndex area < numPages doc
        then map str (filter (?ov area) (textItems (items (pages doc ! pageIndex area))))
        else []"
  have ov: "overlapsArea (pages doc ! pageIndex area) run area = ?ov area run" for area run
    by (simp add: overlapsArea_def Let_def)
  have ex: "extractedText (verifyRedaction doc areas) = concat (map ?found areas)"
    by (simp add: verifyRedaction_def areaLoop_eq ov cong: if_cong)
  have "success (verifyRedaction doc areas) = (concat (map ?found areas) = [])"
    by (simp add: verifyRedaction_def areaLoop_eq ov cong: if_cong)
  also have "\<dots> = (\<forall>area\<in>set areas. ?found area = [])"
    by (rule concat_map_Nil)
  also have "\<dots> = (\<not> (\<exists>area\<in>set areas. pageIndex area < numPages doc \<and>
           (\<exists>run. TextItem run \<in> set (items (pages doc ! pageIndex area)) \<and> ?ov area run)))"
    by (auto simp: filter_empty_conv set_textItems)
  finally show ?thesis using ex by simp
qed

text \<open>On the sample document the run of the first page overlaps \<open>sampleArea\<close>, and the
  area on a missing page adds nothing.\<close>

lemma sample_verify:
  "verifyRedaction sampleDoc [sampleArea, farArea] =
     \<lparr>success = False, extractedText = [''SSN: 123-45-6789'']\<rparr>"
  by (simp add: sample_defs verifyRedaction_def numPages_def getPage_def overlapsArea_def
        run_x_def run_y_def run_width_def run_height_def orElse_def getViewport_def)

text \<open>C5, as the code has it. A second pass of \<open>sanitizePdf\<close> gives what a single pass
  at the second pass's time gives: title, author, subject and keywords are empty after
  either pass, the pages are untouched, and the metadata of the second pass is that of
  the first but for the creation and modification dates, which are the clock readings
  of the second pass.\<close>

theorem sanitize_twice:
  "sanitizePdf c2 m2 (sanitizePdf c1 m1 doc) = sanitizePdf c2 m2 doc \<and>
   info (sanitizePdf c2 m2 (sanitizePdf c1 m1 doc)) =
     (info (sanitizePdf c1 m1 doc))\<lparr>creationDate := Some c2, modificationDate := Some m2\<rparr> \<and>
   title (info (sanitizePdf c1 m1 doc)) = Some '''' \<and>
   author (info (sanitizePdf c1 m1 doc)) = Some '''' \<and>
   subject (info (sanitizePdf c1 m1 doc)) = Some '''' \<and>
   keywordList (info (sanitizePdf c1 m1 doc)) = Some [] \<and>
   producer (info (sanitizePdf c1 m1 doc)) = Some ''ActuallyRedactPDF - Sanitized'' \<and>
   creator (info (sanitizePdf c1 m1 doc)) = Some ''ActuallyRedactPDF'' \<and>
   pages (sanitizePdf c1 m1 doc) = pages doc"
  by (simp add: sanitizePdf_def)

text \<open>C5 as stated fails: a second pass at a later time gives other metadata than the
  first pass gave.\<close>

theorem sanitize_twice_dates_differ:
  "info (sanitizePdf 2 2 (sanitizePdf 1 1 sampleDoc)) \<noteq> info (sanitizePdf 1 1 sampleDoc)"
  by (simp add: sanitizePdf_def sample_defs)

text \<open>C7. If rendering a page of the document fails, \<open>redactPdfByAreas\<close> fails: it
  returns no document but an error, which is the failure of a page (the first one that
  fails to render).\<close>

theorem render_failure_propagates:
  assumes "i < numPages doc" and "render (pages doc ! i) renderScale = Inl err"
  shows "\<exists>j err'. j \<le> i \<and> render (pages doc ! j) renderScale = Inl err' \<and>
           redactPdfByAreas render created doc areas renderScale = Inl err'"
proof -
  have "flattenPage render (redactionsByPage areas) renderScale doc (i + 1) = Inl err"
    using assms(2) by (simp add: flattenPage_Inl getPage_def)
  from pageLoop_Inl[OF _ _ this, of 1 "[]"] assms(1)
  obtain k e' where k: "1 \<le> k" "k \<le> i + 1"
      "flattenPage render (redactionsByPage areas) renderScale doc k = Inl e'"
      "pageLoop render (redactionsByPage areas) renderScale doc 1 [] = Inl e'"
    by auto
  from k(3) have "render (pages doc ! (k - 1)) renderScale = Inl e'"
    by (simp add: flattenPage_Inl getPage_def)
  moreover from k(1,2) have "k - 1 \<le> i" by simp
  moreover from k(4) have "redactPdfByAreas render created doc areas renderScale = Inl e'"
    by (simp add: redactPdfByAreas_def)
  ultimately show ?thesis by blast
qed

theorem render_failure_propagates_witness:
  "(1::nat) < numPages sampleDoc \<and>
   renderFirstOnly (pages sampleDoc ! 1) 2 = Inl ''render failed'' \<and>
   redactPdfByAreas renderFirstOnly sampleInfo sampleDoc [sampleArea] 2 = Inl ''render failed'' \<and>
   (\<exists>j err'. j \<le> 1 \<and> renderFirstOnly (pages sampleDoc ! j) 2 = Inl err' \<and>
      redactPdfByAreas renderFirstOnly sampleInfo sampleDoc [sampleArea] 2 = Inl err')"
proof -
  have h1: "(1::nat) < numPages sampleDoc" by (simp add: sample_numPages)
  have h2: "renderFirstOnly (pages sampleDoc ! 1) 2 = Inl ''render failed''"
    by (simp add: sample_defs)
  have h3: "redactPdfByAreas renderFirstOnly sampleInfo sampleDoc [sampleArea] 2 =
            Inl ''render failed''"
    by (simp add: sample_defs redact_defs)
  from render_failure_propagates[where render = renderFirstOnly and doc = sampleDoc and i = 1
        and renderScale = 2 and created = sampleInfo and areas = "[sampleArea]", OF h1 h2]
    h1 h2 h3
  show ?thesis by simp
qed

text \<open>C8. The document that \<open>redactPdfByAreas\<close> returns has as many pages as the input,
  and its page \<open>i\<close> has the width and height of the input's page \<open>i\<close> at scale 1 and
  holds the rendering of that page.\<close>

theorem redact_preserves_pages:
  assumes "redactPdfByAreas render created doc areas renderScale = Inr out"
  shows "numPages out = numPages doc \<and>
     (\<forall>i<numPages doc.
        viewWidth (pages out ! i) = viewWidth (pages doc ! i) \<and>
        viewHeight (pages out ! i) = viewHeight (pages doc ! i) \<and>
        image_width (content (pages out ! i)) = viewWidth (pages doc ! i) \<and>
        image_height (content (pages out ! i)) = viewHeight (pages doc ! i) \<and>
        render (pages doc ! i) renderScale = Inr (the (rendered (image (content (pages out ! i))))))"
proof -
  from redact_Inr[OF assms]
  have pl: "pageLoop render (redactionsByPage areas) renderScale doc 1 [] = Inr (pages out)" by simp
  from pageLoop_Inr[OF pl] have len: "length (pages out) = numPages doc"
    and fp: "\<And>k. 1 \<le> k \<Longrightarrow> k \<le> numPages doc \<Longrightarrow>
       flattenPage render (redactionsByPage areas) renderScale doc k = Inr (pages out ! (k - 1))"
    by auto
  show ?thesis
  proof (intro conjI allI impI)
    show "numPages out = numPages doc" using len by (simp add: numPages_def)
  next
    fix i assume "i < numPages doc"
    then have f: "flattenPage render (redactionsByPage areas) renderScale doc (i + 1) =
                  Inr (pages out ! i)"
      using fp[of "i + 1"] by simp
    from flattenPage_Inr_exact[OF f]
    show "viewWidth (pages out ! i) = viewWidth (pages doc ! i)"
      "viewHeight (pages out ! i) = viewHeight (pages doc ! i)"
      "image_width (content (pages out ! i)) = viewWidth (pages doc ! i)"
      "image_height (content (pages out ! i)) = viewHeight (pages doc ! i)"
      "render (pages doc ! i) renderScale = Inr (the (rendered (image (content (pages out ! i)))))"
      by (auto simp: getPage_def)
  qed
qed

theorem redact_preserves_pages_witness:
  "redactPdfByAreas renderAll sampleInfo sampleDoc [sampleArea] 2 = Inr sampleOut \<and>
   numPages sampleOut = numPages sampleDoc \<and> numPages sampleDoc = 2 \<and>
   viewWidth (pages sampleOut ! 1) = viewWidth (pages sampleDoc ! 1) \<and>
   viewHeight (pages sampleOut ! 1) = viewHeight (pages sampleDoc ! 1) \<and>
   renderAll (pages sampleDoc ! 1) 2 =
     Inr (the (rendered (image (content (pages sampleOut ! 1)))))"
proof -
  from redact_preserves_pages[OF sample_redact]
  have n: "numPages sampleOut = numPages sampleDoc"
    and a: "\<forall>i<numPages sampleDoc.
        viewWidth (pages sampleOut ! i) = viewWidth (pages sampleDoc ! i) \<and>
        viewHeight (pages sampleOut ! i) = viewHeight (pages sampleDoc ! i) \<and>
        image_width (content (pages sampleOut ! i)) = viewWidth (pages sampleDoc ! i) \<and>
        image_height (content (pages sampleOut ! i)) = viewHeight (pages sampleDoc ! i) \<and>
        renderAll (pages sampleDoc ! i) 2 =
          Inr (the (rendered (image (content (pages sampleOut ! i)))))"
    by blast+
  have "(1::nat) < numPages sampleDoc" by (simp add: sample_numPages)
  with a n sample_redact sample_numPages show ?thesis by blast
qed

text \<open>C9. The document that \<open>redactPdfByAreas\<close> returns has an empty title, author and
  subject, an empty list of keywords, and the producer and creator of the tool, for
  every list of areas, the empty one too.\<close>

theorem redact_clears_metadata:
  assumes "redactPdfByAreas render created doc areas renderScale = Inr out"
  shows "title (info out) = Some '''' \<and> author (info out) = Some '''' \<and>
     subject (info out) = Some '''' \<and> keywordList (info out) = Some [] \<and>
     producer (info out) = Some ''ActuallyRedactPDF - True Redaction'' \<and>
     creator (info out) = Some ''ActuallyRedactPDF''"
  using redact_Inr[OF assms] by simp

text \<open>With no area at all the sample document is flattened just the same.\<close>

lemma sample_redact_empty:
  "\<exists>out. redactPdfByAreas renderAll sampleInfo sampleDoc [] 2 = Inr out \<and>
     map items (pages out) = [[], []] \<and>
     map (\<lambda>p. filled (image (content p))) (pages out) = [[], []] \<and>
     map (\<lambda>p. rendered (image (content p))) (pages out) = [Some 1, Some 2] \<and>
     keywordList (info out) = Some [] \<and>
     producer (info out) = Some ''ActuallyRedactPDF - True Redaction''"
  by (simp add: sample_defs redact_defs)

theorem redact_clears_metadata_witness:
  "title (info sampleOut) = Some '''' \<and> author (info sampleOut) = Some '''' \<and>
   subject (info sampleOut) = Some '''' \<and> keywordList (info sampleOut) = Some [] \<and>
   producer (info sampleOut) = Some ''ActuallyRedactPDF - True Redaction'' \<and>
   creator (info sampleOut) = Some ''ActuallyRedactPDF'' \<and>
   redactPdfByAreas renderAll sampleInfo sampleDoc [sampleArea] 2 = Inr sampleOut"
  using redact_clears_metadata[OF sample_redact] sample_redact by simp

text \<open>C10. An area whose page index is not below the number of pages changes nothing:
  \<open>redactPdfByAreas\<close> gives the same result with and without it, and \<open>verifyRedaction\<close>
  gives the same report with and without it, on the input and on the output document.\<close>

theorem out_of_range_area_ignored:
  assumes "numPages doc \<le> pageIndex a"
  shows "redactPdfByAreas render created doc (as @ a # bs) renderScale =
         redactPdfByAreas render created doc (as @ bs) renderScale \<and>
     verifyRedaction doc (as @ a # bs) = verifyRedaction doc (as @ bs) \<and>
     (\<forall>out. redactPdfByAreas render created doc (as @ bs) renderScale = Inr out \<longrightarrow>
        verifyRedaction out (as @ a # bs) = verifyRedaction out (as @ bs))"
proof (intro conjI allI impI)
  have "\<forall>i<numPages doc. getOrEmpty (redactionsByPage (as @ a # bs)) i =
                          getOrEmpty (redactionsByPage (as @ bs)) i"
    using assms by (auto simp: getOrEmpty_redactionsByPage)
  then have "pageLoop render (redactionsByPage (as @ a # bs)) renderScale doc 1 [] =
             pageLoop render (redactionsByPage (as @ bs)) renderScale doc 1 []"
    by (rule pageLoop_cong) simp
  then show "redactPdfByAreas render created doc (as @ a # bs) renderScale =
         redactPdfByAreas render created doc (as @ bs) renderScale"
    by (simp add: redactPdfByAreas_def)
next
  show "verifyRedaction doc (as @ a # bs) = verifyRedaction doc (as @ bs)"
    using assms by (simp add: verifyRedaction_def areaLoop_skip)
next
  fix out assume "redactPdfByAreas render created doc (as @ bs) renderScale = Inr out"
  from redact_Inr[OF this]
  have "pageLoop render (redactionsByPage (as @ bs)) renderScale doc 1 [] = Inr (pages out)"
    by simp
  from pageLoop_Inr[OF this] have "numPages out = numPages doc" by (simp add: numPages_def)
  with assms show "verifyRedaction out (as @ a # bs) = verifyRedaction out (as @ bs)"
    by (simp add: verifyRedaction_def areaLoop_skip)
qed

theorem out_of_range_area_ignored_witness:
  "numPages sampleDoc \<le> pageIndex farArea \<and>
   redactPdfByAreas renderAll sampleInfo sampleDoc ([sampleArea] @ farArea # []) 2 = Inr sampleOut \<and>
   redactPdfByAreas renderAll sampleInfo sampleDoc ([sampleArea] @ []) 2 = Inr sampleOut \<and>
   verifyRedaction sampleDoc ([sampleArea] @ farArea # []) = verifyRedaction sampleDoc ([sampleArea] @ []) \<and>
   verifyRedaction sampleOut ([sampleArea] @ farArea # []) = verifyRedaction sampleOut ([sampleArea] @ [])"
proof -
  have h: "numPages sampleDoc \<le> pageIndex farArea" by (simp add: sample_defs numPages_def)
  have r: "redactPdfByAreas renderAll sampleInfo sampleDoc ([sampleArea] @ []) 2 = Inr sampleOut"
    using sample_redact by simp
  from out_of_range_area_ignored[OF h, of renderAll sampleInfo "[sampleArea]" "[]" 2] r h
  show ?thesis by simp
qed

section \<open>Properties of the locators\<close>

subsection \<open>Matches are never empty, so the match loop ends\<close>

lemma ends_bounds:
  "i \<le> length s \<Longrightarrow> e \<in> set (ends r s i) \<Longrightarrow> i + minLen r \<le> e \<and> e \<le> length s"
proof (induction r arbitrary: i e)
  case (Seq r1 r2)
  from Seq.prems(2) obtain m where m: "m \<in> set (ends r1 s i)" "e \<in> set (ends r2 s m)" by auto
  from Seq.IH(1)[OF Seq.prems(1) m(1)] have 1: "i + minLen r1 \<le> m" "m \<le> length s" by auto
  from Seq.IH(2)[OF 1(2) m(2)] have "m + minLen r2 \<le> e" "e \<le> length s" by auto
  with 1 show ?case by simp
next
  case (AtLeast n P)
  have "length (takeWhile P (drop i s)) \<le> length s - i"
    using length_takeWhile_le[of P "drop i s"] by simp
  with AtLeast show ?case by (auto simp: Let_def)
next
  case (Optional r)
  from Optional.prems(2) have "e \<in> set (ends r s i) \<or> e = i" by auto
  then show ?case
  proof
    assume "e \<in> set (ends r s i)"
    from Optional.IH[OF Optional.prems(1) this] show ?thesis by simp
  next
    assume "e = i"
    with Optional.prems(1) show ?thesis by simp
  qed
qed (auto split: if_splits)

lemma exec_Some:
  "exec r s i = Some (a, e) \<Longrightarrow> i \<le> a \<and> a \<le> length s \<and> e \<in> set (ends r s a)"
proof (induction r s i rule: exec.induct)
  case (1 r s i)
  show ?case
  proof (cases "i > length s")
    case True
    with "1.prems" show ?thesis by (simp add: exec.simps[of r s i])
  next
    case False
    show ?thesis
    proof (cases "ends r s i")
      case Nil
      with False "1.prems" have "exec r s (i + 1) = Some (a, e)"
        by (simp add: exec.simps[of r s i])
      from "1.IH"[OF False Nil this] show ?thesis by simp
    next
      case (Cons e' es)
      with False "1.prems" have "a = i" "e = e'" by (simp_all add: exec.simps[of r s i])
      with False Cons show ?thesis by simp
    qed
  qed
qed

lemma exec_progress:
  assumes "1 \<le> minLen r" and "exec r s i = Some (a, e)"
  shows "i \<le> a \<and> a < e \<and> e \<le> length s"
proof -
  from exec_Some[OF assms(2)] have 1: "i \<le> a" "a \<le> length s" "e \<in> set (ends r s a)" by auto
  from ends_bounds[OF 1(2,3)] assms(1) 1(1) show ?thesis by simp
qed

lemma minLen_seq_Cons: "minLen (seq (r # rs)) = minLen r + minLen (seq rs)"
  by (cases rs) simp_all

lemma minLen_PATTERNS: "1 \<le> minLen (PATTERNS pt)"
  by (cases pt) (simp_all add: minLen_seq_Cons digits_def counted_def eval_nat_numeral)

lemma matchSpans_bounds:
  "1 \<le> minLen r \<Longrightarrow> (a, e) \<in> set (matchSpans r s i) \<Longrightarrow> a < e \<and> e \<le> length s"
proof (induction r s i rule: matchSpans.induct)
  case (1 r s i)
  show ?case
  proof (cases "exec r s i")
    case None
    with "1.prems" show ?thesis by (simp add: matchSpans.simps[of r s i])
  next
    case (Some p)
    obtain a' e' where p: "p = (a', e')" by (cases p)
    from Some p have ex: "exec r s i = Some (a', e')" by simp
    from exec_progress[OF "1.prems"(1) ex] have pr: "i \<le> a'" "a' < e'" "e' \<le> length s" by auto
    then have ms: "matchSpans r s i = (a', e') # matchSpans r s e'"
      by (subst matchSpans.simps) (simp add: ex)
    from "1.prems"(2) ms have "(a, e) = (a', e') \<or> (a, e) \<in> set (matchSpans r s e')" by simp
    then show ?thesis
    proof
      assume "(a, e) = (a', e')"
      with pr show ?thesis by simp
    next
      assume "(a, e) \<in> set (matchSpans r s e')"
      with "1.IH"[OF ex refl _ "1.prems"(1)] pr show ?thesis by simp
    qed
  qed
qed

subsection \<open>The loops of detectSensitivePatterns in closed form\<close>

lemma pushMatch_append:
  "pushMatch vh pn pt pm a m0 matches = matches @ pushMatch vh pn pt pm a m0 []"
  by (simp add: pushMatch_def Let_def split: option.splits)

text \<open>The match loop returns: it adds the matches of the successive calls of \<open>exec\<close>.\<close>

lemma execLoop_eq:
  "1 \<le> minLen r \<Longrightarrow>
   execLoop r s vh pn pt pm i matches =
     Some (matches @ spanMatches s vh pn pt pm (matchSpans r s i))"
proof (induction r s i arbitrary: matches rule: matchSpans.induct)
  case (1 r s i)
  show ?case
  proof (cases "exec r s i")
    case None
    then show ?thesis
      by (subst execLoop.simps, subst matchSpans.simps) (simp add: spanMatches_def)
  next
    case (Some p)
    obtain a e where p: "p = (a, e)" by (cases p)
    from Some p have "exec r s i = Some (a, e)" by simp
    from exec_progress[OF "1.prems" this] have pr: "i < e \<and> e \<le> length s" by simp
    have ms: "matchSpans r s i = (a, e) # matchSpans r s e"
      by (subst matchSpans.simps) (simp add: Some p pr)
    have "execLoop r s vh pn pt pm i matches =
          execLoop r s vh pn pt pm e (pushMatch vh pn pt pm a (substring s a e) matches)"
      by (subst execLoop.simps) (simp add: Some p)
    also have "\<dots> = Some (pushMatch vh pn pt pm a (substring s a e) matches @
                          spanMatches s vh pn pt pm (matchSpans r s e))"
      using Some p pr "1.prems" by (intro "1.IH") auto
    also have "\<dots> = Some (matches @ spanMatches s vh pn pt pm (matchSpans r s i))"
      by (subst pushMatch_append) (simp add: ms spanMatches_def)
    finally show ?thesis .
  qed
qed

lemma patternLoop_eq:
  "patternLoop s vh pn pm ts matches =
     Some (matches @
           concat (map (\<lambda>pt. spanMatches s vh pn pt pm (matchSpans (PATTERNS pt) s 0)) ts))"
  by (induction ts arbitrary: matches) (simp_all add: execLoop_eq[OF minLen_PATTERNS])

lemma detectPage_eq:
  "detectPage doc ts k matches = Some (matches @ concat (map (typeMatches doc k) ts))"
proof (cases "buildText (items (getPage doc k)) [] []")
  case (Pair ft pm)
  have "typeMatches doc k = (\<lambda>pt. spanMatches ft (viewHeight (getPage doc k)) k pt pm
           (matchSpans (PATTERNS pt) ft 0))"
    by (rule ext) (simp add: typeMatches_def Let_def fullTextOf_def positionMapOf_def Pair)
  then show ?thesis
    by (simp add: detectPage_def Let_def patternLoop_eq getViewport_def Pair)
qed

lemma detectLoop_eq:
  "detectLoop doc ts n matches =
     Some (matches @
           concat (map (\<lambda>k. concat (map (typeMatches doc k) ts)) [n..<Suc (numPages doc)]))"
proof (induction doc ts n matches rule: detectLoop.induct)
  case (1 pdfJsDoc patternTypes pageNum matches)
  show ?case
  proof (cases "pageNum \<le> numPages pdfJsDoc")
    case False
    then show ?thesis by (subst detectLoop.simps) simp
  next
    case True
    have up: "[pageNum..<Suc (numPages pdfJsDoc)] =
              pageNum # [pageNum + 1..<Suc (numPages pdfJsDoc)]"
      using True by (simp add: upt_conv_Cons del: upt_Suc)
    have "detectLoop pdfJsDoc patternTypes pageNum matches =
          detectLoop pdfJsDoc patternTypes (pageNum + 1)
            (matches @ concat (map (typeMatches pdfJsDoc pageNum) patternTypes))"
      by (subst detectLoop.simps) (simp add: True detectPage_eq)
    also have "\<dots> = Some ((matches @ concat (map (typeMatches pdfJsDoc pageNum) patternTypes)) @
        concat (map (\<lambda>k. concat (map (typeMatches pdfJsDoc k) patternTypes))
                  [pageNum + 1..<Suc (numPages pdfJsDoc)]))"
      by (rule "1.IH"[OF True detectPage_eq])
    finally show ?thesis by (simp only: up list.map concat.simps append_assoc)
  qed
qed

text \<open>\<open>detectSensitivePatterns\<close> always returns: page by page, and within a page
  pattern type by pattern type in the order of \<open>patternTypes\<close>.\<close>

lemma detect_eq:
  "detectSensitivePatterns doc ts =
     Some (concat (map (\<lambda>k. concat (map (typeMatches doc k) ts)) [1..<Suc (numPages doc)]))"
  by (simp add: detectSensitivePatterns_def detectLoop_eq)

subsection \<open>The pattern type of a match\<close>

lemma pushMatch_type:
  "m \<in> set (pushMatch vh pn pt pm a m0 []) \<Longrightarrow> patternType m = pt"
  by (auto simp: pushMatch_def Let_def split: option.splits)

lemma typeMatches_type: "m \<in> set (typeMatches doc k pt) \<Longrightarrow> patternType m = pt"
  by (auto simp: typeMatches_def spanMatches_def Let_def dest: pushMatch_type)

lemma filter_typeMatches:
  "filter (\<lambda>m. patternType m = t) (typeMatches doc k pt) =
     (if pt = t then typeMatches doc k pt else [])"
  by (auto simp: filter_empty_conv filter_id_conv dest: typeMatches_type)

lemma concat_map_if_distinct:
  "distinct ts \<Longrightarrow>
   concat (map (\<lambda>pt. if pt = t then f pt else []) ts) = (if t \<in> set ts then f t else [])"
  by (induction ts) auto

lemma filter_page:
  assumes "distinct ts"
  shows "filter (\<lambda>m. patternType m = t) (concat (map (typeMatches doc k) ts)) =
         (if t \<in> set ts then typeMatches doc k t else [])"
proof -
  have "filter (\<lambda>m. patternType m = t) (concat (map (typeMatches doc k) ts)) =
        concat (map (\<lambda>pt. if pt = t then typeMatches doc k pt else []) ts)"
    by (simp add: filter_concat comp_def filter_typeMatches)
  also have "\<dots> = (if t \<in> set ts then typeMatches doc k t else [])"
    using assms by (rule concat_map_if_distinct)
  finally show ?thesis .
qed

lemma filter_detect:
  assumes "distinct ts"
  shows "filter (\<lambda>m. patternType m = t)
           (concat (map (\<lambda>k. concat (map (typeMatches doc k) ts)) ks)) =
         (if t \<in> set ts then concat (map (\<lambda>k. typeMatches doc k t) ks) else [])"
  by (induction ks) (simp_all add: filter_page[OF assms])

lemma all_types: "set allPatternTypes = UNIV" "distinct allPatternTypes"
proof -
  have "pt \<in> set allPatternTypes" for pt by (cases pt) (simp_all add: allPatternTypes_def)
  then show "set allPatternTypes = UNIV" by auto
  show "distinct allPatternTypes" by (simp add: allPatternTypes_def)
qed

lemma mset_concat_map_cong:
  assumes "mset xs = mset ys"
  shows "mset (concat (map f xs)) = mset (concat (map f ys))"
proof -
  have "mset (concat (map f zs)) = (\<Sum>z\<in>#mset zs. mset (f z))" for zs
    by (induction zs) simp_all
  with assms show ?thesis by simp
qed

lemma filter_in_typeMatches:
  "filter (\<lambda>m. patternType m \<in> S) (typeMatches doc k pt) =
     (if pt \<in> S then typeMatches doc k pt else [])"
  by (auto simp: filter_empty_conv filter_id_conv dest: typeMatches_type)

lemma filter_in_page:
  "filter (\<lambda>m. patternType m \<in> S) (concat (map (typeMatches doc k) ts)) =
   concat (map (typeMatches doc k) (filter (\<lambda>pt. pt \<in> S) ts))"
  by (induction ts) (simp_all add: filter_in_typeMatches)

lemma filter_in_detect:
  "filter (\<lambda>m. patternType m \<in> S)
     (concat (map (\<lambda>k. concat (map (typeMatches doc k) ts)) ks)) =
   concat (map (\<lambda>k. concat (map (typeMatches doc k) (filter (\<lambda>pt. pt \<in> S) ts))) ks)"
  by (induction ks) (simp_all add: filter_in_page)

lemma mset_enabled:
  assumes "distinct ts"
  shows "mset (filter (\<lambda>pt. pt \<in> set ts) allPatternTypes) = mset ts"
proof -
  have d: "distinct (filter (\<lambda>pt. pt \<in> set ts) allPatternTypes)" using all_types(2) by simp
  have e: "set (filter (\<lambda>pt. pt \<in> set ts) allPatternTypes) = set ts" using all_types(1) by auto
  from set_eq_iff_mset_eq_distinct[OF d assms] e show ?thesis by blast
qed

lemma mset_pages_cong:
  assumes "mset ts = mset ts'"
  shows "mset (concat (map (\<lambda>k. concat (map (typeMatches doc k) ts)) ks)) =
         mset (concat (map (\<lambda>k. concat (map (typeMatches doc k) ts')) ks))"
  by (induction ks) (simp_all add: mset_concat_map_cong[OF assms])

subsection \<open>Every match start lies in the range of a run\<close>

lemma buildText_cover:
  "\<forall>i<length ft. \<exists>p\<in>set pm. pos_start p \<le> i \<and> i \<le> pos_end p \<Longrightarrow>
   \<forall>i<length (fst (buildText its ft pm)).
      \<exists>p\<in>set (snd (buildText its ft pm)). pos_start p \<le> i \<and> i \<le> pos_end p"
proof (induction its ft pm rule: buildText.induct)
  case (3 textItem rest fullText positionMap)
  let ?ft = "fullText @ str textItem @ '' ''"
  let ?pm = "positionMap @
      [\<lparr>pos_start = length fullText, pos_end = length ?ft - 1, pos_item = textItem\<rparr>]"
  have "\<forall>i<length ?ft. \<exists>p\<in>set ?pm. pos_start p \<le> i \<and> i \<le> pos_end p"
  proof (intro allI impI)
    fix i assume i: "i < length ?ft"
    show "\<exists>p\<in>set ?pm. pos_start p \<le> i \<and> i \<le> pos_end p"
    proof (cases "i < length fullText")
      case True
      with "3.prems" show ?thesis by auto
    next
      case False
      with i show ?thesis by auto
    qed
  qed
  from "3.IH"[OF refl refl this] show ?case by (simp add: Let_def)
qed simp_all

lemma page_cover:
  "i < length (fullTextOf page) \<Longrightarrow>
   \<exists>p\<in>set (positionMapOf page). pos_start p \<le> i \<and> i \<le> pos_end p"
  using buildText_cover[of "[]" "[]" "items page"] by (simp add: fullTextOf_def positionMapOf_def)

lemma pushMatch_single:
  assumes "\<exists>p\<in>set pm. pos_start p \<le> a \<and> a \<le> pos_end p"
  shows "\<exists>m. pushMatch vh pn pt pm a m0 [] = [m] \<and> pageIndex m = pn - 1 \<and>
             patternType m = pt \<and> match_text m = m0 \<and> pattern m = m0"
proof (cases "List.find (\<lambda>pos. pos_start pos \<le> a \<and> pos_end pos \<ge> a) pm")
  case None
  with assms show ?thesis by (auto simp: find_None_iff)
next
  case (Some p)
  then show ?thesis by (simp add: pushMatch_def Let_def)
qed

lemma spanMatches_proj:
  assumes "\<forall>(a, e)\<in>set spans. \<exists>p\<in>set pm. pos_start p \<le> a \<and> a \<le> pos_end p"
  shows "map (\<lambda>m. (pageIndex m, patternType m, match_text m)) (spanMatches s vh pn pt pm spans) =
         map (\<lambda>(a, e). (pn - 1, pt, substring s a e)) spans"
  using assms
proof (induction spans)
  case Nil
  then show ?case by (simp add: spanMatches_def)
next
  case (Cons sp spans)
  obtain a e where sp: "sp = (a, e)" by (cases sp)
  from Cons.prems sp have "\<exists>p\<in>set pm. pos_start p \<le> a \<and> a \<le> pos_end p" by simp
  from pushMatch_single[OF this, of vh pn pt "substring s a e"]
  obtain m where m: "pushMatch vh pn pt pm a (substring s a e) [] = [m]" "pageIndex m = pn - 1"
    "patternType m = pt" "match_text m = substring s a e" by blast
  from Cons
  have "map (\<lambda>m. (pageIndex m, patternType m, match_text m)) (spanMatches s vh pn pt pm spans) =
        map (\<lambda>(a, e). (pn - 1, pt, substring s a e)) spans" by simp
  with m sp show ?case by (simp add: spanMatches_def)
qed

lemma typeMatches_proj:
  "map (\<lambda>m. (pageIndex m, patternType m, match_text m)) (typeMatches doc k pt) =
   map (\<lambda>(a, e). (k - 1, pt, substring (fullTextOf (getPage doc k)) a e))
     (matchSpans (PATTERNS pt) (fullTextOf (getPage doc k)) 0)"
proof -
  have "\<forall>(a, e)\<in>set (matchSpans (PATTERNS pt) (fullTextOf (getPage doc k)) 0).
          \<exists>p\<in>set (positionMapOf (getPage doc k)). pos_start p \<le> a \<and> a \<le> pos_end p"
  proof (clarify)
    fix a e assume "(a, e) \<in> set (matchSpans (PATTERNS pt) (fullTextOf (getPage doc k)) 0)"
    from matchSpans_bounds[OF minLen_PATTERNS this]
    have "a < length (fullTextOf (getPage doc k))" by simp
    then show "\<exists>p\<in>set (positionMapOf (getPage doc k)). pos_start p \<le> a \<and> a \<le> pos_end p"
      by (rule page_cover)
  qed
  from spanMatches_proj[OF this] show ?thesis by (simp add: typeMatches_def Let_def)
qed

subsection \<open>The loops of findTextInPdf in closed form\<close>

lemma findItems_eq:
  "findItems cs needle vh pn its matches =
     matches @ map (itemMatch vh pn)
       (filter (\<lambda>run. includes_str (foldCase cs (str run)) needle) (textItems its))"
  by (induction cs needle vh pn its matches rule: findItems.induct) (auto simp: Let_def)

lemma findLoop_eq:
  "findLoop doc cs needle n matches =
     matches @ concat (map (\<lambda>k. map (itemMatch (viewHeight (getPage doc k)) k)
        (filter (\<lambda>run. includes_str (foldCase cs (str run)) needle)
           (textItems (items (getPage doc k))))) [n..<Suc (numPages doc)])"
proof (induction doc cs needle n matches rule: findLoop.induct)
  case (1 pdfJsDoc caseSensitive searchTermLower pageNum matches)
  show ?case
  proof (cases "pageNum \<le> numPages pdfJsDoc")
    case False
    then show ?thesis by (subst findLoop.simps) simp
  next
    case True
    have up: "[pageNum..<Suc (numPages pdfJsDoc)] =
              pageNum # [pageNum + 1..<Suc (numPages pdfJsDoc)]"
      using True by (simp add: upt_conv_Cons del: upt_Suc)
    let ?step = "findItems caseSensitive searchTermLower
                   (snd (getViewport (getPage pdfJsDoc pageNum) 1))
                   pageNum (items (getPage pdfJsDoc pageNum)) matches"
    have "findLoop pdfJsDoc caseSensitive searchTermLower pageNum matches =
          findLoop pdfJsDoc caseSensitive searchTermLower (pageNum + 1) ?step"
      by (subst findLoop.simps) (simp add: True Let_def)
    also have "\<dots> = ?step @ concat (map (\<lambda>k. map (itemMatch (viewHeight (getPage pdfJsDoc k)) k)
        (filter (\<lambda>run. includes_str (foldCase caseSensitive (str run)) searchTermLower)
           (textItems (items (getPage pdfJsDoc k))))) [pageNum + 1..<Suc (numPages pdfJsDoc)])"
      by (rule "1.IH"[OF True refl refl])
    finally show ?thesis
      by (simp only: up list.map concat.simps append_assoc findItems_eq getViewport_def
            snd_conv mult_1_right)
  qed
qed

section \<open>The claims about the locators\<close>

text \<open>C6. \<open>detectSensitivePatterns\<close> always returns, and for a list of enabled pattern
  types without repetition it returns exactly the matches of the enabled types: for
  every type, its matches are those of the call with all four types when the type is
  enabled, in the same order, and none when it is disabled; as a multiset, the result
  is the result for all four types restricted to the enabled types.\<close>

theorem pattern_toggle:
  assumes "distinct patternTypes"
  shows "\<exists>selected full.
     detectSensitivePatterns doc patternTypes = Some selected \<and>
     detectSensitivePatterns doc allPatternTypes = Some full \<and>
     (\<forall>t. filter (\<lambda>m. patternType m = t) selected =
          (if t \<in> set patternTypes then filter (\<lambda>m. patternType m = t) full else [])) \<and>
     mset selected = mset (filter (\<lambda>m. patternType m \<in> set patternTypes) full)"
proof -
  let ?sel = "concat (map (\<lambda>k. concat (map (typeMatches doc k) patternTypes))
                [1..<Suc (numPages doc)])"
  let ?full = "concat (map (\<lambda>k. concat (map (typeMatches doc k) allPatternTypes))
                [1..<Suc (numPages doc)])"
  have per: "filter (\<lambda>m. patternType m = t) ?sel =
          (if t \<in> set patternTypes then filter (\<lambda>m. patternType m = t) ?full else [])" for t
    by (simp add: filter_detect[OF assms] filter_detect[OF all_types(2)] all_types(1))
  have ms: "mset ?sel = mset (filter (\<lambda>m. patternType m \<in> set patternTypes) ?full)"
    unfolding filter_in_detect
    by (rule mset_pages_cong) (rule mset_enabled[OF assms, symmetric])
  show ?thesis
    unfolding detect_eq using per ms by blast
qed

text \<open>On a page with a number of the \<open>ssn\<close> shape and an e-mail address, enabling only
  \<open>email\<close> keeps the e-mail match and drops the other.\<close>

lemma mixed_email:
  "detectSensitivePatterns mixedDoc [email] =
     Some [\<lparr>pageIndex = 0, x = 72, y = 100, width = 50, height = 16,
            match_text = ''a@b.com'', pattern = ''a@b.com'', patternType = email\<rparr>]"
  by code_simp

lemma mixed_all:
  "detectSensitivePatterns mixedDoc allPatternTypes =
     Some [\<lparr>pageIndex = 0, x = 72, y = 80, width = 70, height = 16,
            match_text = ''555-12-3456'', pattern = ''555-12-3456'', patternType = ssn\<rparr>,
           \<lparr>pageIndex = 0, x = 72, y = 100, width = 50, height = 16,
            match_text = ''a@b.com'', pattern = ''a@b.com'', patternType = email\<rparr>]"
  by code_simp

theorem pattern_toggle_witness:
  "distinct [email] \<and>
   (\<exists>selected full.
     detectSensitivePatterns mixedDoc [email] = Some selected \<and>
     detectSensitivePatterns mixedDoc allPatternTypes = Some full \<and>
     length selected = 1 \<and> length full = 2 \<and>
     filter (\<lambda>m. patternType m = ssn) selected = [] \<and>
     filter (\<lambda>m. patternType m = email) selected = filter (\<lambda>m. patternType m = email) full \<and>
     mset selected = mset (filter (\<lambda>m. patternType m \<in> set [email]) full))"
proof -
  have d: "distinct [email]" by simp
  from pattern_toggle[OF d, of mixedDoc] obtain selected full
    where s: "detectSensitivePatterns mixedDoc [email] = Some selected"
      and f: "detectSensitivePatterns mixedDoc allPatternTypes = Some full"
      and per: "\<forall>t. filter (\<lambda>m. patternType m = t) selected =
          (if t \<in> set [email] then filter (\<lambda>m. patternType m = t) full else [])"
      and ms: "mset selected = mset (filter (\<lambda>m. patternType m \<in> set [email]) full)"
    by blast
  from per have p1: "filter (\<lambda>m. patternType m = ssn) selected = []"
    by (metis (full_types) empty_iff empty_set patternType.distinct(1) set_ConsD)
  from per have p2: "filter (\<lambda>m. patternType m = email) selected =
                     filter (\<lambda>m. patternType m = email) full"
    by simp
  have l1: "length selected = 1" using s unfolding mixed_email by auto
  have l2: "length full = 2" using f unfolding mixed_all by auto
  from d s f l1 l2 p1 p2 ms show ?thesis by blast
qed

text \<open>C3, as the code has it. The literal locator looks for the term in the text of
  each run by itself: it returns one region for every run whose own text contains the
  term (after case folding), with the box of that run, and nothing else, so a term that
  lies across two runs is not found. The pattern locator runs each enabled pattern over
  the concatenated text of a page and returns exactly one match for every match of the
  regular expression, whether it lies in one run or across several, carrying the page
  index, the pattern type and the matched text.\<close>

theorem locators_by_design:
  "findTextInPdf doc searchTerm caseSensitive =
     concat (map (\<lambda>pageNum.
        map (itemMatch (viewHeight (getPage doc pageNum)) pageNum)
          (filter (\<lambda>run. includes_str (foldCase caseSensitive (str run))
                                      (foldCase caseSensitive searchTerm))
             (textItems (items (getPage doc pageNum)))))
       [1..<Suc (numPages doc)]) \<and>
   (\<exists>matches. detectSensitivePatterns doc patternTypes = Some matches \<and>
      map (\<lambda>m. (pageIndex m, patternType m, match_text m)) matches =
        concat (map (\<lambda>pageNum. concat (map (\<lambda>pt.
            map (\<lambda>(a, e). (pageNum - 1, pt, substring (fullTextOf (getPage doc pageNum)) a e))
              (matchSpans (PATTERNS pt) (fullTextOf (getPage doc pageNum)) 0)) patternTypes))
          [1..<Suc (numPages doc)]))"
proof
  show "findTextInPdf doc searchTerm caseSensitive =
     concat (map (\<lambda>pageNum.
        map (itemMatch (viewHeight (getPage doc pageNum)) pageNum)
          (filter (\<lambda>run. includes_str (foldCase caseSensitive (str run))
                                      (foldCase caseSensitive searchTerm))
             (textItems (items (getPage doc pageNum)))))
       [1..<Suc (numPages doc)])"
    by (simp only: findTextInPdf_def Let_def findLoop_eq append_Nil)
next
  have "map (\<lambda>m. (pageIndex m, patternType m, match_text m))
          (concat (map (\<lambda>k. concat (map (typeMatches doc k) patternTypes))
             [1..<Suc (numPages doc)])) =
        concat (map (\<lambda>pageNum. concat (map (\<lambda>pt.
            map (\<lambda>(a, e). (pageNum - 1, pt, substring (fullTextOf (getPage doc pageNum)) a e))
              (matchSpans (PATTERNS pt) (fullTextOf (getPage doc pageNum)) 0)) patternTypes))
          [1..<Suc (numPages doc)])"
    by (simp only: map_concat map_map comp_def typeMatches_proj)
  then show "\<exists>matches. detectSensitivePatterns doc patternTypes = Some matches \<and>
      map (\<lambda>m. (pageIndex m, patternType m, match_text m)) matches =
        concat (map (\<lambda>pageNum. concat (map (\<lambda>pt.
            map (\<lambda>(a, e). (pageNum - 1, pt, substring (fullTextOf (getPage doc pageNum)) a e))
              (matchSpans (PATTERNS pt) (fullTextOf (getPage doc pageNum)) 0)) patternTypes))
          [1..<Suc (numPages doc)])"
    by (simp only: detect_eq) blast
qed

text \<open>C3 as stated fails. With the runs \<open>CONF\<close> and \<open>IDENTIAL\<close> side by side on a page,
  whose concatenated text is \<open>CONF IDENTIAL\<close>, the search for \<open>CONFIDENTIAL\<close> finds
  nothing, while each run is found by a term it contains. And a number of the \<open>ssn\<close>
  shape split over the runs \<open>123-45\<close> (from 72, 40 wide) and \<open>6789\<close> (from 115, 28 wide)
  is one match of the pattern, over both runs and the separator, and the match returned
  has the box of the first run alone.\<close>

theorem split_across_runs_not_merged:
  "fullTextOf (getPage confDoc 1) = ''CONF IDENTIAL '' \<and>
   findTextInPdf confDoc ''CONFIDENTIAL'' False = [] \<and>
   findTextInPdf confDoc ''CONFIDENTIAL'' True = [] \<and>
   findTextInPdf confDoc ''conf'' False =
     [\<lparr>pageIndex = 0, x = 72, y = 80, width = 30, height = 16, match_text = ''CONF''\<rparr>] \<and>
   fullTextOf (getPage splitDoc 1) = ''123-45 6789 '' \<and>
   matchSpans (PATTERNS ssn) (fullTextOf (getPage splitDoc 1)) 0 = [(0, 11)] \<and>
   detectSensitivePatterns splitDoc [ssn] =
     Some [\<lparr>pageIndex = 0, x = 72, y = 80, width = 40, height = 16,
            match_text = ''123-45 6789'', pattern = ''123-45 6789'', patternType = ssn\<rparr>]"
  by code_simp

end
